theory Spec2Isabelle
  imports Complex_Main "HOL-Library.Word"
begin

section \<open>Data model\<close>

text \<open>
  The KTX2 array assembler \<^verbatim>\<open>KTX2Assembler\<close> (the module ktx2-assembler.js, which the
  sources hold in the file renderer-webgl.js, lines 877 to 1248) and its two textual
  copies in \<^verbatim>\<open>ImagesToKtxSequential\<close> (\<^verbatim>\<open>encode\<close> and
  \<^verbatim>\<open>encodeFromVideoGenerator\<close>): the same validation, the same size rule and the same
  loops, written inline there. Byte buffers (\<^verbatim>\<open>Uint8Array\<close>) are lists of 8-bit words;
  the unsigned header fields that ktx-parse reads are natural numbers.

  JavaScript numbers are doubles. All quantities here are integers, on which double
  arithmetic is exact below \<open>2^53\<close>; the sizes of buffers that can be allocated are far
  below that. The allocation \<^verbatim>\<open>new Uint8Array(totalSize)\<close> is taken to succeed: memory
  limits are not part of the model.
\<close>

type_synonym byte = "8 word"
type_synonym bytes = "byte list"

text \<open>One mip level of one layer, and also one combined level of the array:
  \<^verbatim>\<open>{ levelData, uncompressedByteLength }\<close>.\<close>

record MipLevel =
  levelData :: bytes
  uncompressedByteLength :: nat

text \<open>The data format descriptor and the key/value block are passed through untouched.\<close>

type_synonym dfd = "nat list"
type_synonym key_values = "(string \<times> bytes) list"

text \<open>The container object of ktx-parse, with the fields the assembler reads or writes.
  \<^verbatim>\<open>keyValue\<close> and \<^verbatim>\<open>globalData\<close> may be absent (\<^verbatim>\<open>null\<close>).\<close>

record KTX2Container =
  vkFormat :: nat
  typeSize :: nat
  pixelWidth :: nat
  pixelHeight :: nat
  pixelDepth :: nat
  layerCount :: nat
  faceCount :: nat
  levelCount :: nat
  supercompressionScheme :: nat
  levels :: "MipLevel list"
  dataFormatDescriptor :: dfd
  keyValue :: "key_values option"
  globalData :: "bytes option"

text \<open>An entry of \<^verbatim>\<open>encodedLayers\<close>: \<^verbatim>\<open>{ levels: layerLevels, format, width, height }\<close>.
  The field \<^verbatim>\<open>levels\<close> is named after the variable it is filled from, since the
  container already has a field of that name.\<close>

record EncodedLayer =
  layerLevels :: "MipLevel list"
  format :: nat
  width :: nat
  height :: nat

record BaseParams =
  baseFormat :: nat
  baseWidth :: nat
  baseHeight :: nat
  baseSupercompression :: nat
  baseKeyValue :: "key_values option"
  baseTypeSize :: nat
  sharedDfd :: dfd
  firstLayerMipCount :: nat

text \<open>Every \<^verbatim>\<open>throw\<close> of the modelled code, and the two runtime errors of JavaScript
  that the code can run into: reading a property of \<^verbatim>\<open>null\<close> or \<^verbatim>\<open>undefined\<close>
  (TypeError) and \<^verbatim>\<open>TypedArray.prototype.set\<close> past the end of the target
  (RangeError). The mismatch errors carry the layer index, then the expected and the
  actual values, as the messages do.\<close>

datatype error =
    FormatMismatch nat nat nat
  | SizeMismatch nat nat nat nat nat
  | MipCountMismatch nat nat nat
  | NoUrlsProvided
  | NoInputLayers
  | FetchFailed string
  | EncodeFailed string
  | TypeError
  | RangeError

text \<open>What a layer source yields: an image file \<^verbatim>\<open>{data, fileName, extension}\<close> or a
  video frame \<^verbatim>\<open>{rgba, width, height, fileName}\<close>.\<close>

datatype layer_item =
    ImageFile bytes string string
  | VideoFrame bytes nat nat string

text \<open>The collaborators outside the assembler: the network fetch of one URL (the whole
  promise chain, rejected when the response is not ok), the two factory methods of
  \<^verbatim>\<open>KTX2Encoder\<close>, and \<^verbatim>\<open>read\<close> and \<^verbatim>\<open>write\<close> of ktx-parse.\<close>

record collaborators =
  fetch :: "string \<Rightarrow> error + bytes"
  fromImageFile :: "bytes \<Rightarrow> string \<Rightarrow> error + bytes"
  fromRGBA :: "bytes \<Rightarrow> nat \<Rightarrow> nat \<Rightarrow> error + bytes"
  read_ktx :: "bytes \<Rightarrow> error + KTX2Container"
  write_ktx :: "KTX2Container \<Rightarrow> error + bytes"

text \<open>The calls a run makes, in order.\<close>

datatype event = EncoderCall nat | AssemblerCall | WriterCall

section \<open>JavaScript primitives\<close>

text \<open>\<^verbatim>\<open>x >> n\<close>: the left operand is converted to a signed 32-bit integer, the shift
  count is taken modulo 32, the shift is arithmetic.\<close>

definition js_sar :: "nat \<Rightarrow> nat \<Rightarrow> int" where
  "js_sar x n = sint (signed_drop_bit (n mod 32) (word_of_nat x :: 32 word))"

text \<open>\<^verbatim>\<open>Math.ceil(a / 4)\<close> on a number holding an integer.\<close>

definition ceil_quarter :: "int \<Rightarrow> int" where
  "ceil_quarter a = \<lceil>real_of_int a / 4\<rceil>"

text \<open>\<^verbatim>\<open>xs[i]\<close> is \<^verbatim>\<open>undefined\<close> out of range.\<close>

definition nth_opt :: "'a list \<Rightarrow> nat \<Rightarrow> 'a option" where
  "nth_opt xs i = (if i < length xs then Some (xs ! i) else None)"

text \<open>\<^verbatim>\<open>target.set(src, off)\<close> on typed arrays: a RangeError when the source does not
  fit, else the bytes at \<^verbatim>\<open>off ..< off + src.length\<close> are overwritten.\<close>

definition typed_array_set :: "bytes \<Rightarrow> bytes \<Rightarrow> nat \<Rightarrow> error + bytes" where
  "typed_array_set target src off =
     (if off + length src > length target then Inl RangeError
      else Inr (take off target @ src @ drop (off + length src) target))"

text \<open>\<^verbatim>\<open>s.split(c).pop()\<close>: what follows the last occurrence of \<^verbatim>\<open>c\<close>, the whole
  string when there is none.\<close>

definition split_pop :: "char \<Rightarrow> string \<Rightarrow> string" where
  "split_pop c s = rev (takeWhile (\<lambda>x. x \<noteq> c) (rev s))"

text \<open>The decimal digits of an index, for the template literal \<^verbatim>\<open>image${i}\<close>.\<close>

fun decimal :: "nat \<Rightarrow> string" where
  "decimal n = (if n < 10 then [char_of (48 + n)]
                else decimal (n div 10) @ [char_of (48 + n mod 10)])"

section \<open>Validation\<close>

definition extractBaseParams :: "KTX2Container \<Rightarrow> BaseParams" where
  "extractBaseParams container =
     \<lparr> baseFormat = vkFormat container,
       baseWidth = pixelWidth container,
       baseHeight = pixelHeight container,
       baseSupercompression = supercompressionScheme container,
       baseKeyValue = keyValue container,
       baseTypeSize = typeSize container,
       sharedDfd = dataFormatDescriptor container,
       firstLayerMipCount = length (levels container) \<rparr>"

definition validateLayerConsistency :: "KTX2Container \<Rightarrow> BaseParams \<Rightarrow> nat \<Rightarrow> error + unit" where
  "validateLayerConsistency container bp layerIndex =
     (if baseFormat bp \<noteq> 0 \<and> vkFormat container \<noteq> 0 \<and> vkFormat container \<noteq> baseFormat bp
      then Inl (FormatMismatch layerIndex (baseFormat bp) (vkFormat container))
      else if pixelWidth container \<noteq> baseWidth bp \<or> pixelHeight container \<noteq> baseHeight bp
      then Inl (SizeMismatch layerIndex (baseWidth bp) (baseHeight bp)
                  (pixelWidth container) (pixelHeight container))
      else if length (levels container) \<noteq> firstLayerMipCount bp
      then Inl (MipCountMismatch layerIndex (firstLayerMipCount bp) (length (levels container)))
      else Inr ())"

section \<open>Mip level assembly\<close>

definition uastcBytesPerImageAtLevel :: "nat \<Rightarrow> nat \<Rightarrow> nat \<Rightarrow> nat" where
  "uastcBytesPerImageAtLevel level w h =
     (let wL = max 1 (js_sar w level);
          hL = max 1 (js_sar h level);
          blocksX = ceil_quarter wL;
          blocksY = ceil_quarter hL
      in nat (blocksX * blocksY * 16))"

text \<open>\<^verbatim>\<open>(8 - (n % 8)) % 8\<close> on a size, which is never negative.\<close>

definition pad8 :: "nat \<Rightarrow> nat" where
  "pad8 n = (8 - n mod 8) mod 8"

text \<open>The two \<^verbatim>\<open>reduce\<close> calls. An entry of \<^verbatim>\<open>layersForThisMip\<close> is
  \<^verbatim>\<open>undefined\<close> when the layer has no such level; reading its field throws.
  The accumulator is the callback's \<^verbatim>\<open>sum\<close>.\<close>

fun reduce_byteLength :: "MipLevel option list \<Rightarrow> nat \<Rightarrow> error + nat" where
  "reduce_byteLength [] acc = Inr acc"
| "reduce_byteLength (None # rest) acc = Inl TypeError"
| "reduce_byteLength (Some l # rest) acc = reduce_byteLength rest (acc + length (levelData l))"

fun reduce_uncompressed :: "MipLevel option list \<Rightarrow> nat \<Rightarrow> error + nat" where
  "reduce_uncompressed [] acc = Inr acc"
| "reduce_uncompressed (None # rest) acc = Inl TypeError"
| "reduce_uncompressed (Some l # rest) acc =
     reduce_uncompressed rest (acc + uncompressedByteLength l)"

text \<open>The state of the copy loop: the buffer, the running offset, and (for the claims on
  the layout) the offsets at which \<^verbatim>\<open>combined.set\<close> was called, in call order.\<close>

record copy_state =
  combined :: bytes
  offset :: nat
  writes :: "nat list"

fun concatLayers :: "nat \<Rightarrow> nat \<Rightarrow> nat \<Rightarrow> MipLevel option list \<Rightarrow> copy_state
    \<Rightarrow> error + copy_state" where
  "concatLayers scheme exactSize perImagePadding [] st = Inr st"
| "concatLayers scheme exactSize perImagePadding (None # rest) st = Inl TypeError"
| "concatLayers scheme exactSize perImagePadding (Some lvl # rest) st =
     (let srcData = levelData lvl in
      if scheme = 0 then
        (let trimmed = take exactSize srcData in
         case typed_array_set (combined st) trimmed (offset st) of
           Inl e \<Rightarrow> Inl e
         | Inr c \<Rightarrow>
             concatLayers scheme exactSize perImagePadding rest
               \<lparr> combined = c,
                 offset = (let off = offset st + length trimmed
                           in if perImagePadding > 0 then off + perImagePadding else off),
                 writes = writes st @ [offset st] \<rparr>)
      else
        (case typed_array_set (combined st) srcData (offset st) of
           Inl e \<Rightarrow> Inl e
         | Inr c \<Rightarrow>
             concatLayers scheme exactSize perImagePadding rest
               \<lparr> combined = c,
                 offset = offset st + length srcData,
                 writes = writes st @ [offset st] \<rparr>))"

text \<open>The body of the loop over \<^verbatim>\<open>mipLevel\<close>: the combined level, and the final state
  of the copy loop.\<close>

definition assembleMip :: "BaseParams \<Rightarrow> EncodedLayer list \<Rightarrow> nat
    \<Rightarrow> error + (MipLevel \<times> copy_state)" where
  "assembleMip bp encodedLayers mipLevel =
     (let layersForThisMip = map (\<lambda>layer. nth_opt (layerLevels layer) mipLevel) encodedLayers;
          exactSize = uastcBytesPerImageAtLevel mipLevel (baseWidth bp) (baseHeight bp);
          perImagePadding = pad8 exactSize;
          perImageWithPad = exactSize + perImagePadding
      in case (if baseSupercompression bp = 0
               then Inr (perImageWithPad * length encodedLayers)
               else reduce_byteLength layersForThisMip 0) of
           Inl e \<Rightarrow> Inl e
         | Inr totalSize \<Rightarrow>
            (case concatLayers (baseSupercompression bp) exactSize perImagePadding
                    layersForThisMip
                    \<lparr> combined = replicate totalSize 0, offset = 0, writes = [] \<rparr> of
               Inl e \<Rightarrow> Inl e
             | Inr st \<Rightarrow>
                (case (if baseSupercompression bp = 0
                       then Inr totalSize
                       else reduce_uncompressed layersForThisMip 0) of
                   Inl e \<Rightarrow> Inl e
                 | Inr totalUncompressed \<Rightarrow>
                     Inr (\<lparr> levelData = combined st,
                            uncompressedByteLength = totalUncompressed \<rparr>, st))))"

function mipLoop :: "BaseParams \<Rightarrow> EncodedLayer list \<Rightarrow> nat \<Rightarrow> nat \<Rightarrow> MipLevel list
    \<Rightarrow> error + MipLevel list" where
  "mipLoop bp encodedLayers mipCount mipLevel combinedLevels =
     (if mipLevel < mipCount then
        (case assembleMip bp encodedLayers mipLevel of
           Inl e \<Rightarrow> Inl e
         | Inr (lvl, st) \<Rightarrow>
             mipLoop bp encodedLayers mipCount (Suc mipLevel) (combinedLevels @ [lvl]))
      else Inr combinedLevels)"
  by pat_completeness auto
termination
  by (relation "measure (\<lambda>(bp, ls, mipCount, mipLevel, acc). mipCount - mipLevel)") auto

text \<open>\<^verbatim>\<open>_assembleMipLevels\<close>. Destructuring \<^verbatim>\<open>baseParams\<close> throws when it is
  \<^verbatim>\<open>null\<close>, and so does \<^verbatim>\<open>encodedLayers[0].levels\<close> on an empty array.\<close>

definition assembleMipLevels :: "EncodedLayer list \<Rightarrow> BaseParams option
    \<Rightarrow> error + MipLevel list" where
  "assembleMipLevels encodedLayers baseParams =
     (case baseParams of
        None \<Rightarrow> Inl TypeError
      | Some bp \<Rightarrow>
         (case encodedLayers of
            [] \<Rightarrow> Inl TypeError
          | first # _ \<Rightarrow> mipLoop bp encodedLayers (length (layerLevels first)) 0 []))"

definition createArrayContainer :: "EncodedLayer list \<Rightarrow> BaseParams \<Rightarrow> MipLevel list
    \<Rightarrow> KTX2Container" where
  "createArrayContainer encodedLayers bp combinedLevels =
     \<lparr> vkFormat = baseFormat bp,
       typeSize = baseTypeSize bp,
       pixelWidth = baseWidth bp,
       pixelHeight = baseHeight bp,
       pixelDepth = 0,
       layerCount = length encodedLayers,
       faceCount = 1,
       levelCount = length combinedLevels,
       supercompressionScheme = baseSupercompression bp,
       levels = combinedLevels,
       dataFormatDescriptor = sharedDfd bp,
       keyValue = (case baseKeyValue bp of None \<Rightarrow> Some [] | Some kv \<Rightarrow> Some kv),
       globalData = None \<rparr>"

section \<open>The sequential encoder\<close>

record encode_state =
  encodedLayers :: "EncodedLayer list"
  baseParams :: "BaseParams option"
  layerIndex :: nat

text \<open>The encoder call for one yielded item, followed by \<^verbatim>\<open>read\<close>.\<close>

definition encodeItem :: "collaborators \<Rightarrow> layer_item \<Rightarrow> error + KTX2Container" where
  "encodeItem env layer =
     (case (case layer of
              VideoFrame rgba w h fileName \<Rightarrow> fromRGBA env rgba w h
            | ImageFile data fileName extension \<Rightarrow> fromImageFile env data extension) of
        Inl e \<Rightarrow> Inl e
      | Inr ktx2Buffer \<Rightarrow> read_ktx env ktx2Buffer)"

definition toEncodedLayer :: "KTX2Container \<Rightarrow> EncodedLayer" where
  "toEncodedLayer container =
     \<lparr> layerLevels = map (\<lambda>level. \<lparr> levelData = levelData level,
                                     uncompressedByteLength = uncompressedByteLength level \<rparr>)
                         (levels container),
       format = vkFormat container,
       width = pixelWidth container,
       height = pixelHeight container \<rparr>"

text \<open>The \<^verbatim>\<open>for await\<close> loop of \<^verbatim>\<open>encode\<close>. The source is the list of what its
  successive pulls give: an item, or the error the generator throws (after which nothing
  more is pulled).\<close>

fun encodeLoop :: "collaborators \<Rightarrow> (error + layer_item) list \<Rightarrow> encode_state \<Rightarrow> event list
    \<Rightarrow> event list \<times> (error + encode_state)" where
  "encodeLoop env [] st tr = (tr, Inr st)"
| "encodeLoop env (Inl e # rest) st tr = (tr, Inl e)"
| "encodeLoop env (Inr layer # rest) st tr =
     (let tr1 = tr @ [EncoderCall (layerIndex st)] in
      case encodeItem env layer of
        Inl e \<Rightarrow> (tr1, Inl e)
      | Inr container \<Rightarrow>
         (case (if layerIndex st = 0 then Inr (Some (extractBaseParams container))
                else (case baseParams st of
                        None \<Rightarrow> Inl TypeError
                      | Some bp \<Rightarrow>
                         (case validateLayerConsistency container bp (layerIndex st) of
                            Inl e \<Rightarrow> Inl e
                          | Inr _ \<Rightarrow> Inr (Some bp)))) of
            Inl e \<Rightarrow> (tr1, Inl e)
          | Inr bpo \<Rightarrow>
              encodeLoop env rest
                \<lparr> encodedLayers = encodedLayers st @ [toEncodedLayer container],
                  baseParams = bpo,
                  layerIndex = Suc (layerIndex st) \<rparr> tr1))"

definition encode :: "collaborators \<Rightarrow> (error + layer_item) list
    \<Rightarrow> event list \<times> (error + bytes)" where
  "encode env layerSource =
     (case encodeLoop env layerSource
             \<lparr> encodedLayers = [], baseParams = None, layerIndex = 0 \<rparr> [] of
        (tr, Inl e) \<Rightarrow> (tr, Inl e)
      | (tr, Inr st) \<Rightarrow>
         (case assembleMipLevels (encodedLayers st) (baseParams st) of
            Inl e \<Rightarrow> (tr @ [AssemblerCall], Inl e)
          | Inr combinedLevels \<Rightarrow>
             (case baseParams st of
                None \<Rightarrow> (tr @ [AssemblerCall], Inl TypeError)
              | Some bp \<Rightarrow>
                 (tr @ [AssemblerCall, WriterCall],
                  write_ktx env (createArrayContainer (encodedLayers st) bp combinedLevels)))))"

text \<open>The item the image generator yields for URL number \<^verbatim>\<open>i\<close>.\<close>

definition imageItem :: "nat \<Rightarrow> string \<Rightarrow> bytes \<Rightarrow> layer_item" where
  "imageItem i url data =
     (let fileName = (if split_pop CHR ''/'' url = [] then ''image'' @ decimal i
                      else split_pop CHR ''/'' url);
          extension = (if split_pop CHR ''.'' fileName = [] then ''jpg''
                       else split_pop CHR ''.'' fileName)
      in ImageFile data fileName extension)"

text \<open>\<^verbatim>\<open>imageGenerator\<close> of \<^verbatim>\<open>fromImageUrls\<close>: the fetch of URL \<^verbatim>\<open>i + 1\<close> is
  started when URL \<^verbatim>\<open>i\<close> has arrived, before item \<^verbatim>\<open>i\<close> is yielded;
  \<^verbatim>\<open>nextFetchPromise\<close> holds the outcome of the fetch in flight.\<close>

function imageGeneratorLoop :: "collaborators \<Rightarrow> string list \<Rightarrow> nat \<Rightarrow> error + bytes
    \<Rightarrow> (error + layer_item) list" where
  "imageGeneratorLoop env urls i nextFetchPromise =
     (if i < length urls then
        (case nextFetchPromise of
           Inl e \<Rightarrow> [Inl e]
         | Inr data \<Rightarrow>
             Inr (imageItem i (urls ! i) data) #
               imageGeneratorLoop env urls (Suc i)
                 (if Suc i < length urls then fetch env (urls ! Suc i) else nextFetchPromise))
      else [])"
  by pat_completeness auto
termination
  by (relation "measure (\<lambda>(env, urls, i, p). length urls - i)") auto

definition imageGenerator :: "collaborators \<Rightarrow> string list \<Rightarrow> (error + layer_item) list" where
  "imageGenerator env urls = imageGeneratorLoop env urls 0 (fetch env (urls ! 0))"

definition fromImageUrls :: "collaborators \<Rightarrow> string list \<Rightarrow> event list \<times> (error + bytes)" where
  "fromImageUrls env urls =
     (if urls = [] then ([], Inl NoUrlsProvided)
      else encode env (imageGenerator env urls))"

section \<open>Vocabulary of the claims\<close>

text \<open>The bytes that belong to one layer inside a combined level: for scheme 0 the payload
  cut to \<^verbatim>\<open>exactSize\<close> bytes and the padding the offset skips, else the payload as it
  is.\<close>

definition layerSlot :: "nat \<Rightarrow> nat \<Rightarrow> nat \<Rightarrow> MipLevel \<Rightarrow> bytes" where
  "layerSlot scheme exactSize perImagePadding lvl =
     (if scheme = 0 then take exactSize (levelData lvl) @ replicate perImagePadding 0
      else levelData lvl)"

text \<open>The bytes that one \<^verbatim>\<open>set\<close> call copies for a layer: for scheme 0 the payload cut to
  \<^verbatim>\<open>exactSize\<close> bytes, else the payload as it is.\<close>

definition copiedBytes :: "nat \<Rightarrow> nat \<Rightarrow> MipLevel \<Rightarrow> bytes" where
  "copiedBytes scheme exactSize lvl =
     (if scheme = 0 then take exactSize (levelData lvl) else levelData lvl)"

text \<open>Where consecutive slots start.\<close>

fun slot_offsets :: "nat \<Rightarrow> bytes list \<Rightarrow> nat list" where
  "slot_offsets start [] = []"
| "slot_offsets start (s # ss) = start # slot_offsets (start + length s) ss"

text \<open>The spec's size rule, in its words: the dimension at a mip is the base dimension
  halved \<^verbatim>\<open>m\<close> times and floored at 1; the exact size is
  \<^verbatim>\<open>ceil(width_at_mip/4) * ceil(height_at_mip/4) * 16\<close>.\<close>

definition dim_at_mip :: "nat \<Rightarrow> nat \<Rightarrow> nat" where
  "dim_at_mip base m = max 1 (base div 2 ^ m)"

definition spec_exact_size :: "nat \<Rightarrow> nat \<Rightarrow> nat \<Rightarrow> nat" where
  "spec_exact_size m w h =
     nat \<lceil>real (dim_at_mip w m) / 4\<rceil> * nat \<lceil>real (dim_at_mip h m) / 4\<rceil> * 16"

text \<open>The state of \<^verbatim>\<open>encode\<close> after the containers \<^verbatim>\<open>cs\<close> have been taken in, and
  what it means for the loop to take in the items: each is encoded to its container, and
  every container but the first passes validation against the first, under its index.\<close>

definition finalState :: "KTX2Container list \<Rightarrow> encode_state" where
  "finalState cs =
     \<lparr> encodedLayers = map toEncodedLayer cs,
       baseParams = (case cs of [] \<Rightarrow> None | c # _ \<Rightarrow> Some (extractBaseParams c)),
       layerIndex = length cs \<rparr>"

definition accepted :: "collaborators \<Rightarrow> layer_item list \<Rightarrow> KTX2Container list \<Rightarrow> bool" where
  "accepted env items cs \<longleftrightarrow>
     map (encodeItem env) items = map Inr cs
     \<and> (\<forall>j. 0 < j \<and> j < length cs \<longrightarrow>
           validateLayerConsistency (cs ! j) (extractBaseParams (cs ! 0)) j = Inr ())"

text \<open>The first error of a list of outcomes, or all the values.\<close>

fun collect :: "(error + 'a) list \<Rightarrow> error + 'a list" where
  "collect [] = Inr []"
| "collect (Inl e # xs) = Inl e"
| "collect (Inr x # xs) = (case collect xs of Inl e \<Rightarrow> Inl e | Inr ys \<Rightarrow> Inr (x # ys))"

text \<open>The image items of the URLs from index \<^verbatim>\<open>i\<close> on, each fetched when it is asked
  for, with no fetch in flight.\<close>

fun pullInOrder :: "collaborators \<Rightarrow> nat \<Rightarrow> string list \<Rightarrow> (error + layer_item) list" where
  "pullInOrder env i [] = []"
| "pullInOrder env i (url # rest) =
     (case fetch env url of
        Inl e \<Rightarrow> [Inl e]
      | Inr data \<Rightarrow> Inr (imageItem i url data) # pullInOrder env (Suc i) rest)"

text \<open>The spec's eager mode, in its words: all inputs are fetched up front, then all are
  encoded, then every layer is validated against the first, then the levels are
  assembled, the container is built and serialized.\<close>

definition spec_eager_assembly :: "collaborators \<Rightarrow> string list \<Rightarrow> error + bytes" where
  "spec_eager_assembly env urls =
     (if urls = [] then Inl NoUrlsProvided
      else
       (case collect (map (fetch env) urls) of
          Inl e \<Rightarrow> Inl e
        | Inr datas \<Rightarrow>
           (case collect (map (\<lambda>i. encodeItem env (imageItem i (urls ! i) (datas ! i)))
                            [0..<length urls]) of
              Inl e \<Rightarrow> Inl e
            | Inr containers \<Rightarrow>
               (let bp = extractBaseParams (containers ! 0) in
                case collect (map (\<lambda>i. validateLayerConsistency (containers ! i) bp i)
                                [1..<length containers]) of
                  Inl e \<Rightarrow> Inl e
                | Inr _ \<Rightarrow>
                   (case assembleMipLevels (map toEncodedLayer containers) (Some bp) of
                      Inl e \<Rightarrow> Inl e
                    | Inr combinedLevels \<Rightarrow>
                        write_ktx env
                          (createArrayContainer (map toEncodedLayer containers) bp
                             combinedLevels))))))"

section \<open>Sample inputs\<close>

text \<open>Concrete inputs on which the properties are evaluated: a container of ktx-parse with
  a given format, size, scheme and levels; base parameters with a given format, size,
  scheme and mip count; a level of \<^verbatim>\<open>n\<close> equal bytes; a layer; two 8 by 4 layers with
  two levels each, the second over-allocated at level 0; two 4 by 4 layers of which the
  first holds only 8 of the 16 bytes; and collaborators whose encoder returns its input
  and whose parser makes a 4 by \<^verbatim>\<open>length / 4\<close> container of one level out of it.\<close>

definition sampleContainer :: "nat \<Rightarrow> nat \<Rightarrow> nat \<Rightarrow> nat \<Rightarrow> MipLevel list \<Rightarrow> KTX2Container" where
  "sampleContainer f w h scheme lvls =
     \<lparr> vkFormat = f, typeSize = 1, pixelWidth = w, pixelHeight = h, pixelDepth = 0,
       layerCount = 0, faceCount = 1, levelCount = length lvls,
       supercompressionScheme = scheme, levels = lvls, dataFormatDescriptor = [],
       keyValue = None, globalData = None \<rparr>"

definition sampleBase :: "nat \<Rightarrow> nat \<Rightarrow> nat \<Rightarrow> nat \<Rightarrow> nat \<Rightarrow> BaseParams" where
  "sampleBase f w h scheme mips =
     \<lparr> baseFormat = f, baseWidth = w, baseHeight = h, baseSupercompression = scheme,
       baseKeyValue = None, baseTypeSize = 1, sharedDfd = [], firstLayerMipCount = mips \<rparr>"

definition sampleLevel :: "nat \<Rightarrow> byte \<Rightarrow> nat \<Rightarrow> MipLevel" where
  "sampleLevel n b u = \<lparr> levelData = replicate n b, uncompressedByteLength = u \<rparr>"

definition sampleLayer :: "nat \<Rightarrow> nat \<Rightarrow> nat \<Rightarrow> MipLevel list \<Rightarrow> EncodedLayer" where
  "sampleLayer f w h lvls = \<lparr> layerLevels = lvls, format = f, width = w, height = h \<rparr>"

definition twoLayers :: "EncodedLayer list" where
  "twoLayers = [sampleLayer 0 8 4 [sampleLevel 32 1 32, sampleLevel 16 2 16],
                sampleLayer 0 8 4 [sampleLevel 40 3 48, sampleLevel 16 4 16]]"

definition shortLayers :: "EncodedLayer list" where
  "shortLayers = [sampleLayer 0 4 4 [sampleLevel 8 1 16], sampleLayer 0 4 4 [sampleLevel 20 2 16]]"

definition sampleEnv :: collaborators where
  "sampleEnv =
     \<lparr> fetch = (\<lambda>url. if url = [] then Inl (FetchFailed url)
                       else Inr (replicate 16 (of_nat (length url)))),
       fromImageFile = (\<lambda>data extension. Inr data),
       fromRGBA = (\<lambda>rgba w h. Inr rgba),
       read_ktx = (\<lambda>b. Inr (sampleContainer 0 4 (length b div 4) 0 [sampleLevel (length b) (if b = [] then 0 else hd b) (length b)])),
       write_ktx = (\<lambda>c. Inr (concat (map levelData (levels c)))) \<rparr>"

section \<open>Properties\<close>

lemma pad8_lt: "pad8 n < 8"
  by (simp add: pad8_def)

subsection \<open>Arithmetic of the size rule\<close>

lemma sint_word_of_nat_small:
  assumes "x < 2 ^ 31"
  shows "sint (word_of_nat x :: 32 word) = int x"
proof -
  have b: "int x < 2 ^ 31"
    using assms by (metis of_nat_less_iff of_nat_numeral of_nat_power)
  have "sint (word_of_int (int x) :: 32 word) = (int x + 2 ^ 31) mod 2 ^ 32 - 2 ^ 31"
    using int_word_sint[of "int x", where 'a=32] by simp
  also have "\<dots> = int x" using b by simp
  finally show ?thesis by simp
qed

lemma js_sar_halving:
  assumes "x < 2 ^ 31" "n < 32"
  shows "js_sar x n = int (x div 2 ^ n)"
  using assms(2)
  by (simp add: js_sar_def sint_signed_drop_bit_eq drop_bit_eq_div zdiv_int
      sint_word_of_nat_small[OF assms(1)])

lemma ceil_quarter_div: "ceil_quarter a = (a + 3) div 4"
proof -
  have "\<lceil>real_of_int a / real_of_int 4\<rceil> = - (- a div 4)"
    by (rule ceiling_divide_eq_div)
  then show ?thesis unfolding ceil_quarter_def by simp
qed

lemma ceil_quarter_pos: "1 \<le> a \<Longrightarrow> 1 \<le> ceil_quarter a"
  by (simp add: ceil_quarter_div)

lemma uastc_blocks:
  "\<exists>k. 1 \<le> k \<and> uastcBytesPerImageAtLevel level w h = 16 * k"
proof -
  define bx where "bx = ceil_quarter (max 1 (js_sar w level))"
  define by' where "by' = ceil_quarter (max 1 (js_sar h level))"
  have x: "1 \<le> bx" and y: "1 \<le> by'"
    unfolding bx_def by'_def by (rule ceil_quarter_pos, simp)+
  have "1 * 1 \<le> bx * by'"
    by (rule mult_mono) (use x y in auto)
  then have p: "1 \<le> bx * by'" by simp
  have "uastcBytesPerImageAtLevel level w h = nat (bx * by' * 16)"
    by (simp add: uastcBytesPerImageAtLevel_def Let_def bx_def by'_def)
  also have "\<dots> = 16 * nat (bx * by')"
    using p by (simp add: nat_mult_distrib)
  finally show ?thesis using p by (intro exI[of _ "nat (bx * by')"]) auto
qed

lemma uastc_ge_16: "16 \<le> uastcBytesPerImageAtLevel level w h"
  using uastc_blocks[of level w h] by auto

lemma pad8_uastc: "pad8 (uastcBytesPerImageAtLevel level w h) = 0"
  using uastc_blocks[of level w h] by (auto simp: pad8_def)

lemma uastc_closed_form:
  assumes "w < 2 ^ 31" "h < 2 ^ 31" "level < 32"
  shows "uastcBytesPerImageAtLevel level w h =
         ((max 1 (w div 2 ^ level) + 3) div 4) * ((max 1 (h div 2 ^ level) + 3) div 4) * 16"
proof -
  have a: "max 1 (int (w div 2 ^ level)) = int (max 1 (w div 2 ^ level))" for w
    by simp
  have b: "(int n + 3) div 4 = int ((n + 3) div 4)" for n
    by (simp add: zdiv_int)
  show ?thesis
    unfolding uastcBytesPerImageAtLevel_def Let_def js_sar_halving[OF assms(1,3)]
      js_sar_halving[OF assms(2,3)] ceil_quarter_div a b
    by (simp add: nat_mult_distrib flip: of_nat_mult)
qed

text \<open>Outside these bounds the shift of JavaScript is not a halving: the count is taken
  modulo 32, so that level 32 of a 1024 by 1024 base is computed as level 0 (a texture
  of such dimensions has 11 levels).\<close>

lemma shift_count_wraps: "uastcBytesPerImageAtLevel 32 1024 1024 = 1048576"
  by (simp add: uastcBytesPerImageAtLevel_def js_sar_def ceil_quarter_div)

subsection \<open>The copy loop\<close>

lemma typed_array_set_zeros:
  assumes "length src \<le> k"
  shows "typed_array_set (pre @ replicate k 0) src (length pre)
         = Inr (pre @ src @ replicate (k - length src) 0)"
  using assms by (simp add: typed_array_set_def)

lemma replicate_split:
  "p \<le> n \<Longrightarrow> replicate n (x::'a) = replicate p x @ replicate (n - p) x"
  by (simp add: replicate_add [symmetric])

lemma concatLayers_prefix:
  assumes "length (concat (map (layerSlot scheme E pad) ls)) \<le> k"
  shows "concatLayers scheme E pad (map Some ls @ ys)
           \<lparr> combined = pre @ replicate k 0, offset = length pre, writes = ws \<rparr>
         = concatLayers scheme E pad ys
             \<lparr> combined = pre @ concat (map (layerSlot scheme E pad) ls)
                     @ replicate (k - length (concat (map (layerSlot scheme E pad) ls))) 0,
               offset = length pre + length (concat (map (layerSlot scheme E pad) ls)),
               writes = ws @ slot_offsets (length pre) (map (layerSlot scheme E pad) ls) \<rparr>"
  using assms
proof (induction ls arbitrary: pre k ws)
  case Nil
  then show ?case by simp
next
  case (Cons l ls)
  let ?s = "layerSlot scheme E pad l"
  let ?rest = "concat (map (layerSlot scheme E pad) ls)"
  have fit: "length ?s + length ?rest \<le> k" using Cons.prems by simp
  then have rest: "length ?rest \<le> k - length ?s" by simp
  note ih = Cons.IH[OF rest, of "pre @ ?s" "ws @ [length pre]"]
  show ?case
  proof (cases "scheme = 0")
    case True
    let ?t = "take E (levelData l)"
    have s: "?s = ?t @ replicate pad 0" using True by (simp add: layerSlot_def)
    have tk: "length ?t \<le> k" and pk: "pad \<le> k - length ?t"
      using fit s by simp_all
    have z: "replicate (k - length ?t) (0::byte)
             = replicate pad 0 @ replicate (k - length ?s) 0"
      using replicate_split[OF pk, of "0::byte"] s by simp
    have step: "typed_array_set (pre @ replicate k 0) ?t (length pre)
                = Inr ((pre @ ?s) @ replicate (k - length ?s) 0)"
      using typed_array_set_zeros[OF tk, of pre] z s by simp
    have off: "(let off = length pre + length ?t in if pad > 0 then off + pad else off)
               = length (pre @ ?s)"
      using s by (simp add: Let_def)
    show ?thesis
      using True ih step off
      by (simp add: Let_def add.assoc)
  next
    case False
    have s: "?s = levelData l" using False by (simp add: layerSlot_def)
    have tk: "length (levelData l) \<le> k" using fit s by simp
    have step: "typed_array_set (pre @ replicate k 0) (levelData l) (length pre)
                = Inr ((pre @ ?s) @ replicate (k - length ?s) 0)"
      using typed_array_set_zeros[OF tk, of pre] s by simp
    show ?thesis
      using False ih step s
      by (simp add: Let_def add.assoc)
  qed
qed


lemma concatLayers_layout:
  assumes "length (concat (map (layerSlot scheme E pad) ls)) \<le> k"
  shows "concatLayers scheme E pad (map Some ls)
           \<lparr> combined = pre @ replicate k 0, offset = length pre, writes = ws \<rparr>
         = Inr \<lparr> combined = pre @ concat (map (layerSlot scheme E pad) ls)
                     @ replicate (k - length (concat (map (layerSlot scheme E pad) ls))) 0,
                 offset = length pre + length (concat (map (layerSlot scheme E pad) ls)),
                 writes = ws @ slot_offsets (length pre) (map (layerSlot scheme E pad) ls) \<rparr>"
  using concatLayers_prefix[OF assms, of "[]" pre ws] by simp

lemma reduce_byteLength_Some:
  "reduce_byteLength (map Some ls) acc = Inr (acc + length (concat (map levelData ls)))"
  by (induction ls arbitrary: acc) simp_all

lemma reduce_uncompressed_Some:
  "reduce_uncompressed (map Some ls) acc = Inr (acc + sum_list (map uncompressedByteLength ls))"
  by (induction ls arbitrary: acc) simp_all

lemma layerSlot_length_le:
  "length (layerSlot 0 E pad l) \<le> E + pad"
  by (simp add: layerSlot_def)

lemma slots_length_le:
  "length (concat (map (layerSlot 0 E pad) ls)) \<le> (E + pad) * length ls"
proof (induction ls)
  case Nil
  then show ?case by simp
next
  case (Cons l ls)
  have "length (layerSlot 0 E pad l) \<le> E + pad" by (rule layerSlot_length_le)
  with Cons show ?case by simp
qed

lemma slots_length_exact:
  assumes "\<forall>l\<in>set ls. E \<le> length (levelData l)"
  shows "length (concat (map (layerSlot 0 E pad) ls)) = (E + pad) * length ls"
  using assms by (induction ls) (simp_all add: layerSlot_def min_def)

lemma layersForThisMip_Some:
  assumes "\<forall>layer\<in>set layers. m < length (layerLevels layer)"
  shows "map (\<lambda>layer. nth_opt (layerLevels layer) m) layers
         = map Some (map (\<lambda>layer. layerLevels layer ! m) layers)"
  using assms by (simp add: nth_opt_def)

text \<open>The combined level when every layer has the level.\<close>

lemma assembleMip_none:
  assumes lf: "map (\<lambda>layer. nth_opt (layerLevels layer) m) layers = map Some ls"
    and sc: "baseSupercompression bp = 0"
    and E: "E = uastcBytesPerImageAtLevel m (baseWidth bp) (baseHeight bp)"
    and slots: "slots = map (layerSlot 0 E (pad8 E)) ls"
    and tot: "tot = (E + pad8 E) * length layers"
  shows "assembleMip bp layers m =
         Inr (\<lparr> levelData = concat slots @ replicate (tot - length (concat slots)) 0,
                uncompressedByteLength = tot \<rparr>,
              \<lparr> combined = concat slots @ replicate (tot - length (concat slots)) 0,
                offset = length (concat slots),
                writes = slot_offsets 0 slots \<rparr>)"
proof -
  have "length (map (\<lambda>layer. nth_opt (layerLevels layer) m) layers) = length (map Some ls)"
    by (simp only: lf)
  then have len: "length ls = length layers" by simp
  have fit: "length (concat (map (layerSlot 0 E (pad8 E)) ls)) \<le> tot"
    using slots_length_le[of E "pad8 E" ls] by (simp add: tot len)
  have run: "concatLayers 0 E (pad8 E) (map Some ls)
               \<lparr> combined = replicate tot 0, offset = 0, writes = [] \<rparr>
             = Inr \<lparr> combined = concat slots @ replicate (tot - length (concat slots)) 0,
                     offset = length (concat slots),
                     writes = slot_offsets 0 slots \<rparr>"
    using concatLayers_layout[OF fit, of "[]" "[]"] by (simp add: slots)
  show ?thesis
    unfolding assembleMip_def Let_def lf
    using sc run by (simp add: E [symmetric] tot [symmetric])
qed

lemma assembleMip_compressed:
  assumes lf: "map (\<lambda>layer. nth_opt (layerLevels layer) m) layers = map Some ls"
    and sc: "baseSupercompression bp \<noteq> 0"
    and E: "E = uastcBytesPerImageAtLevel m (baseWidth bp) (baseHeight bp)"
    and slots: "slots = map (layerSlot (baseSupercompression bp) E (pad8 E)) ls"
  shows "assembleMip bp layers m =
         Inr (\<lparr> levelData = concat (map levelData ls),
                uncompressedByteLength = sum_list (map uncompressedByteLength ls) \<rparr>,
              \<lparr> combined = concat (map levelData ls),
                offset = length (concat (map levelData ls)),
                writes = slot_offsets 0 slots \<rparr>)"
proof -
  let ?tot = "length (concat (map levelData ls))"
  have sl: "map (layerSlot (baseSupercompression bp) E (pad8 E)) ls = map levelData ls"
    using sc by (simp add: layerSlot_def)
  have fit: "length (concat (map (layerSlot (baseSupercompression bp) E (pad8 E)) ls)) \<le> ?tot"
    by (simp only: sl)
  have run: "concatLayers (baseSupercompression bp) E (pad8 E) (map Some ls)
               \<lparr> combined = replicate ?tot 0, offset = 0, writes = [] \<rparr>
             = Inr \<lparr> combined = concat (map levelData ls),
                     offset = ?tot,
                     writes = slot_offsets 0 slots \<rparr>"
    using concatLayers_layout[OF fit, of "[]" "[]"] by (simp add: slots sl)
  show ?thesis
    unfolding assembleMip_def Let_def lf reduce_byteLength_Some reduce_uncompressed_Some
    using sc run by (simp add: E [symmetric])
qed

lemma split_at_first_None:
  "(\<exists>ls. xs = map Some ls) \<or> (\<exists>ls rest. xs = map Some ls @ None # rest)"
proof (induction xs)
  case Nil
  then show ?case by simp
next
  case (Cons x xs)
  show ?case
  proof (cases x)
    case None
    then have "x # xs = map Some [] @ None # xs" by simp
    then show ?thesis by (intro disjI2 exI[of _ "[]"] exI[of _ xs])
  next
    case (Some l)
    from Cons.IH show ?thesis
    proof
      assume "\<exists>ls. xs = map Some ls"
      then obtain ls where "xs = map Some ls" ..
      then have "x # xs = map Some (l # ls)" using Some by simp
      then show ?thesis by (intro disjI1 exI[of _ "l # ls"])
    next
      assume "\<exists>ls rest. xs = map Some ls @ None # rest"
      then obtain ls rest where "xs = map Some ls @ None # rest" by blast
      then have "x # xs = map Some (l # ls) @ None # rest" using Some by simp
      then show ?thesis by (intro disjI2 exI[of _ "l # ls"] exI[of _ rest])
    qed
  qed
qed

lemma reduce_byteLength_None:
  "reduce_byteLength (map Some ls @ None # rest) acc = Inl TypeError"
  by (induction ls arbitrary: acc) simp_all

lemma assembleMip_missing_level:
  assumes lf: "map (\<lambda>layer. nth_opt (layerLevels layer) m) layers = map Some ls @ None # rest"
  shows "assembleMip bp layers m = Inl TypeError"
proof (cases "baseSupercompression bp = 0")
  case True
  define E where "E = uastcBytesPerImageAtLevel m (baseWidth bp) (baseHeight bp)"
  define tot where "tot = (E + pad8 E) * length layers"
  have "length (map (\<lambda>layer. nth_opt (layerLevels layer) m) layers)
        = length (map Some ls @ None # rest)"
    by (simp only: lf)
  then have len: "length ls \<le> length layers" by simp
  have "length (concat (map (layerSlot 0 E (pad8 E)) ls)) \<le> (E + pad8 E) * length ls"
    by (rule slots_length_le)
  also have "\<dots> \<le> tot" using len by (simp add: tot_def)
  finally have fit: "length (concat (map (layerSlot 0 E (pad8 E)) ls)) \<le> tot" .
  have run: "concatLayers 0 E (pad8 E) (map Some ls @ None # rest)
               \<lparr> combined = replicate tot 0, offset = 0, writes = [] \<rparr> = Inl TypeError"
    using concatLayers_prefix[OF fit, of "None # rest" "[]" "[]"] by simp
  show ?thesis
    unfolding assembleMip_def Let_def lf
    using True run by (simp add: E_def [symmetric] tot_def [symmetric])
next
  case False
  then show ?thesis
    unfolding assembleMip_def Let_def lf reduce_byteLength_None by simp
qed

lemma assembleMip_cases:
  "(\<exists>ls. map (\<lambda>layer. nth_opt (layerLevels layer) m) layers = map Some ls
        \<and> (\<exists>r. assembleMip bp layers m = Inr r))
   \<or> assembleMip bp layers m = Inl TypeError"
proof -
  let ?xs = "map (\<lambda>layer. nth_opt (layerLevels layer) m) layers"
  from split_at_first_None[of ?xs] show ?thesis
  proof
    assume "\<exists>ls. ?xs = map Some ls"
    then obtain ls where lf: "?xs = map Some ls" ..
    have "\<exists>r. assembleMip bp layers m = Inr r"
    proof (cases "baseSupercompression bp = 0")
      case True
      from assembleMip_none[OF lf True refl refl refl] show ?thesis by blast
    next
      case False
      from assembleMip_compressed[OF lf False refl refl] show ?thesis by blast
    qed
    with lf show ?thesis by blast
  next
    assume "\<exists>ls rest. ?xs = map Some ls @ None # rest"
    then obtain ls rest where "?xs = map Some ls @ None # rest" by blast
    then show ?thesis using assembleMip_missing_level by blast
  qed
qed

lemma mipLoop_error:
  "mipLoop bp layers mipCount m acc = Inl e \<Longrightarrow> \<exists>k<mipCount. assembleMip bp layers k = Inl e"
proof (induction bp layers mipCount m acc rule: mipLoop.induct)
  case (1 bp layers mipCount m acc)
  show ?case
  proof (cases "m < mipCount")
    case True
    show ?thesis
    proof (cases "assembleMip bp layers m")
      case (Inl e')
      with True "1.prems" have "e' = e" by simp
      with Inl True show ?thesis by blast
    next
      case (Inr r)
      obtain lvl st where r: "r = (lvl, st)" by (cases r)
      from True Inr r "1.prems"
      have "mipLoop bp layers mipCount (Suc m) (acc @ [lvl]) = Inl e" by simp
      from "1.IH"[OF True Inr r[symmetric] this] show ?thesis .
    qed
  next
    case False
    with "1.prems" show ?thesis by simp
  qed
qed

lemma mipLoop_ok:
  assumes "\<forall>k. m \<le> k \<and> k < mipCount \<longrightarrow> (\<exists>r. assembleMip bp layers k = Inr r)"
  shows "mipLoop bp layers mipCount m acc
         = Inr (acc @ map (\<lambda>k. fst (projr (assembleMip bp layers k))) [m..<mipCount])"
  using assms
proof (induction bp layers mipCount m acc rule: mipLoop.induct)
  case (1 bp layers mipCount m acc)
  show ?case
  proof (cases "m < mipCount")
    case True
    with "1.prems" obtain r where r: "assembleMip bp layers m = Inr r" by auto
    obtain lvl st where p: "r = (lvl, st)" by (cases r)
    have rest: "\<forall>k. Suc m \<le> k \<and> k < mipCount \<longrightarrow> (\<exists>r. assembleMip bp layers k = Inr r)"
      using "1.prems" by auto
    note ih = "1.IH"[OF True r p[symmetric] rest]
    have "mipLoop bp layers mipCount m acc
          = mipLoop bp layers mipCount (Suc m) (acc @ [lvl])"
      using True r p by simp
    also note ih
    finally show ?thesis using True r p by (simp add: upt_conv_Cons)
  next
    case False
    then show ?thesis by simp
  qed
qed

subsection \<open>Slot offsets\<close>

lemma slot_offsets_length: "length (slot_offsets start ss) = length ss"
  by (induction ss arbitrary: start) simp_all

lemma slot_offsets_lower: "w \<in> set (slot_offsets start ss) \<Longrightarrow> start \<le> w"
proof (induction ss arbitrary: start)
  case Nil
  then show ?case by simp
next
  case (Cons s ss)
  from Cons.prems have "w = start \<or> w \<in> set (slot_offsets (start + length s) ss)" by simp
  then show ?case
  proof
    assume "w = start" then show ?thesis by simp
  next
    assume "w \<in> set (slot_offsets (start + length s) ss)"
    from Cons.IH[OF this] show ?thesis by simp
  qed
qed

lemma slot_offsets_nth_end:
  "i < length ss \<Longrightarrow> slot_offsets start ss ! i + length (ss ! i) \<le> start + length (concat ss)"
proof (induction ss arbitrary: start i)
  case Nil
  then show ?case by simp
next
  case (Cons s ss)
  show ?case
  proof (cases i)
    case 0
    then show ?thesis by simp
  next
    case (Suc j)
    with Cons.prems have "j < length ss" by simp
    from Cons.IH[OF this, of "start + length s"] Suc show ?thesis by simp
  qed
qed

lemma slot_offsets_ascending:
  assumes "\<forall>s\<in>set ss. s \<noteq> []"
  shows "sorted_wrt (<) (slot_offsets start ss)"
  using assms
proof (induction ss arbitrary: start)
  case Nil
  then show ?case by simp
next
  case (Cons s ss)
  have pos: "0 < length s" using Cons.prems by simp
  have "start < w" if "w \<in> set (slot_offsets (start + length s) ss)" for w
    using slot_offsets_lower[OF that] pos by linarith
  then have "\<forall>w\<in>set (slot_offsets (start + length s) ss). start < w"
    by blast
  moreover have "sorted_wrt (<) (slot_offsets (start + length s) ss)"
    using Cons by simp
  ultimately show ?case by simp
qed

lemma slot_offsets_uniform:
  assumes "\<forall>s\<in>set ss. length s = c"
  shows "slot_offsets start ss = map (\<lambda>i. start + i * c) [0..<length ss]"
  using assms
proof (induction ss arbitrary: start)
  case Nil
  then show ?case by simp
next
  case (Cons s ss)
  have ih: "slot_offsets (start + c) ss = map (\<lambda>i. start + c + i * c) [0..<length ss]"
    using Cons by simp
  have "[0..<length (s # ss)] = 0 # map Suc [0..<length ss]"
    by (simp add: upt_conv_Cons map_Suc_upt del: upt_Suc)
  then show ?case using Cons.prems ih by (simp add: o_def add.assoc del: upt_Suc)
qed

lemma slot_offsets_nth:
  "i < length ss \<Longrightarrow> slot_offsets start ss ! i = start + length (concat (take i ss))"
proof (induction ss arbitrary: i start)
  case Nil
  then show ?case by simp
next
  case (Cons s ss)
  show ?case
  proof (cases i)
    case 0
    then show ?thesis by simp
  next
    case (Suc j)
    with Cons.prems have "j < length ss" by simp
    from Cons.IH[OF this, of "start + length s"] Suc show ?thesis by simp
  qed
qed

lemma slot_offsets_next:
  assumes "Suc i < length ss"
  shows "slot_offsets start ss ! Suc i = slot_offsets start ss ! i + length (ss ! i)"
proof -
  have i: "i < length ss" using assms by simp
  have "take (Suc i) ss = take i ss @ [ss ! i]" using i by (rule take_Suc_conv_app_nth)
  then show ?thesis
    using slot_offsets_nth[OF assms, of start] slot_offsets_nth[OF i, of start] by simp
qed

lemma slot_offsets_content:
  assumes "i < length ss"
  shows "take (length (ss ! i)) (drop (slot_offsets 0 ss ! i) (concat ss @ rest)) = ss ! i"
proof -
  have "ss = take i ss @ ss ! i # drop (Suc i) ss" using assms by (rule id_take_nth_drop)
  then have "concat ss = concat (take i ss) @ ss ! i @ concat (drop (Suc i) ss)"
    by (metis concat.simps(2) concat_append)
  then have "drop (length (concat (take i ss))) (concat ss @ rest)
             = ss ! i @ concat (drop (Suc i) ss) @ rest"
    by simp
  then show ?thesis using slot_offsets_nth[OF assms, of 0] by simp
qed

lemma layerSlot_copied:
  "\<exists>padding. layerSlot scheme E pad l = copiedBytes scheme E l @ padding"
  by (simp add: layerSlot_def copiedBytes_def)

subsection \<open>One level, every layer present\<close>

lemma assembleMip_layout:
  assumes lf: "map (\<lambda>layer. nth_opt (layerLevels layer) m) layers = map Some ls"
    and E: "E = uastcBytesPerImageAtLevel m (baseWidth bp) (baseHeight bp)"
    and slots: "slots = map (layerSlot (baseSupercompression bp) E (pad8 E)) ls"
  shows "\<exists>tot unc. length (concat slots) \<le> tot \<and>
           assembleMip bp layers m =
             Inr (\<lparr> levelData = concat slots @ replicate (tot - length (concat slots)) 0,
                    uncompressedByteLength = unc \<rparr>,
                  \<lparr> combined = concat slots @ replicate (tot - length (concat slots)) 0,
                    offset = length (concat slots),
                    writes = slot_offsets 0 slots \<rparr>)"
proof (cases "baseSupercompression bp = 0")
  case True
  have len: "length ls = length layers"
    using arg_cong[OF lf, of length] by simp
  have "length (concat slots) \<le> (E + pad8 E) * length layers"
    using slots_length_le[of E "pad8 E" ls] by (simp add: slots True len)
  with assembleMip_none[OF lf True E _ refl, of slots] slots True show ?thesis
    by auto
next
  case False
  have sl: "slots = map levelData ls"
    using False by (simp add: slots layerSlot_def)
  from assembleMip_compressed[OF lf False E slots]
  have "assembleMip bp layers m =
         Inr (\<lparr> levelData = concat slots @ replicate (length (concat slots) - length (concat slots)) 0,
                uncompressedByteLength = sum_list (map uncompressedByteLength ls) \<rparr>,
              \<lparr> combined = concat slots @ replicate (length (concat slots) - length (concat slots)) 0,
                offset = length (concat slots),
                writes = slot_offsets 0 slots \<rparr>)"
    by (simp add: sl)
  then show ?thesis by (intro exI[of _ "length (concat slots)"] exI conjI) simp_all
qed

lemma layersForThisMip_length:
  assumes "map (\<lambda>layer. nth_opt (layerLevels layer) m) layers = map Some ls"
  shows "length ls = length layers"
  using arg_cong[OF assms, of length] by simp

lemma layersForThisMip_nth:
  assumes "map (\<lambda>layer. nth_opt (layerLevels layer) m) layers = map Some ls" "i < length layers"
  shows "nth_opt (layerLevels (layers ! i)) m = Some (ls ! i)"
proof -
  have "map (\<lambda>layer. nth_opt (layerLevels layer) m) layers ! i = map Some ls ! i"
    by (simp only: assms(1))
  then show ?thesis
    using assms(2) layersForThisMip_length[OF assms(1)] by simp
qed

subsection \<open>All levels\<close>

lemma assembleMip_total:
  assumes "\<forall>layer\<in>set layers. m < length (layerLevels layer)"
  shows "\<exists>r. assembleMip bp layers m = Inr r"
  using assembleMip_layout[OF layersForThisMip_Some[OF assms] refl refl, of bp] by blast

lemma assembleMipLevels_ok:
  assumes "layers \<noteq> []"
    and "\<forall>layer\<in>set layers. length (layerLevels layer) = mipCount"
  shows "assembleMipLevels layers (Some bp)
         = Inr (map (\<lambda>k. fst (projr (assembleMip bp layers k))) [0..<mipCount])"
proof -
  obtain first rest where l: "layers = first # rest" using assms(1) by (cases layers) auto
  have mc: "length (layerLevels first) = mipCount" using assms(2) l by simp
  have "\<forall>k. 0 \<le> k \<and> k < mipCount \<longrightarrow> (\<exists>r. assembleMip bp layers k = Inr r)"
    using assembleMip_total assms(2) by simp
  from mipLoop_ok[OF this, of "[]"] show ?thesis
    by (simp add: assembleMipLevels_def l mc)
qed

lemma assembleMipLevels_error:
  assumes "assembleMipLevels layers bpo = Inl e"
  shows "e = TypeError"
proof (cases bpo)
  case None
  with assms show ?thesis by (simp add: assembleMipLevels_def)
next
  case (Some bp)
  show ?thesis
  proof (cases layers)
    case Nil
    with Some assms show ?thesis by (simp add: assembleMipLevels_def)
  next
    case (Cons first rest)
    with Some assms
    have "mipLoop bp layers (length (layerLevels first)) 0 [] = Inl e"
      by (simp add: assembleMipLevels_def)
    then obtain k where "assembleMip bp layers k = Inl e"
      using mipLoop_error by blast
    with assembleMip_cases[of k layers bp] show ?thesis by auto
  qed
qed

subsection \<open>Sample evaluations\<close>

lemma uastc_8_4: "uastcBytesPerImageAtLevel 0 8 4 = 32"
  by (simp add: uastc_closed_form)

lemma shortLayers_level:
  "assembleMip (sampleBase 0 4 4 0 1) shortLayers 0
   = Inr (\<lparr> levelData = replicate 8 1 @ replicate 16 2 @ replicate 8 0,
            uncompressedByteLength = 32 \<rparr>,
          \<lparr> combined = replicate 8 1 @ replicate 16 2 @ replicate 8 0,
            offset = 24, writes = [0, 8] \<rparr>)"
  by (simp add: assembleMip_def Let_def nth_opt_def typed_array_set_def uastc_closed_form pad8_def
       sampleBase_def shortLayers_def sampleLayer_def sampleLevel_def)

lemma layerSlot_exact_length:
  "E \<le> length (levelData l) \<Longrightarrow> length (layerSlot 0 E pad l) = E + pad"
  by (simp add: layerSlot_def)

lemma assembleMip_format_irrelevant:
  "assembleMip (bp\<lparr>baseFormat := f\<rparr>) (map (\<lambda>l. l\<lparr>format := g l\<rparr>) layers) m
   = assembleMip bp layers m"
  by (simp add: assembleMip_def Let_def o_def cong: sum.case_cong)

lemma bc1_sample_level:
  "assembleMip (sampleBase 131 4 4 0 1) [sampleLayer 131 4 4 [sampleLevel 8 7 8]] 0
   = Inr (\<lparr> levelData = replicate 8 7 @ replicate 8 0, uncompressedByteLength = 16 \<rparr>,
          \<lparr> combined = replicate 8 7 @ replicate 8 0, offset = 8, writes = [0] \<rparr>)"
  by (simp add: assembleMip_def Let_def nth_opt_def typed_array_set_def uastc_closed_form pad8_def
       sampleBase_def sampleLayer_def sampleLevel_def)

subsection \<open>The encode loop\<close>

lemma encodeLoop_append:
  "encodeLoop env (xs @ ys) st tr =
     (case encodeLoop env xs st tr of
        (tr', Inl e) \<Rightarrow> (tr', Inl e)
      | (tr', Inr st') \<Rightarrow> encodeLoop env ys st' tr')"
proof (induction xs arbitrary: st tr)
  case Nil
  then show ?case by simp
next
  case (Cons x xs)
  show ?case
  proof (cases x)
    case (Inl e)
    then show ?thesis by simp
  next
    case (Inr layer)
    then show ?thesis
      by (simp add: Let_def Cons.IH split: sum.splits)
  qed
qed

lemma finalState_snoc:
  "finalState (cs @ [c]) =
     \<lparr> encodedLayers = encodedLayers (finalState cs) @ [toEncodedLayer c],
       baseParams = (if cs = [] then Some (extractBaseParams c) else baseParams (finalState cs)),
       layerIndex = Suc (layerIndex (finalState cs)) \<rparr>"
  by (cases cs) (simp_all add: finalState_def)

lemma finalState_sel:
  "layerIndex (finalState cs) = length cs"
  "encodedLayers (finalState cs) = map toEncodedLayer cs"
  "cs \<noteq> [] \<Longrightarrow> baseParams (finalState cs) = Some (extractBaseParams (cs ! 0))"
  "baseParams (finalState []) = None"
  by (cases cs; simp add: finalState_def)+

lemma encodeLoop_step:
  "encodeLoop env [Inr item] (finalState cs) tr =
     (case encodeItem env item of
        Inl e \<Rightarrow> (tr @ [EncoderCall (length cs)], Inl e)
      | Inr c \<Rightarrow>
         (if cs = [] then (tr @ [EncoderCall 0], Inr (finalState [c]))
          else (case validateLayerConsistency c (extractBaseParams (cs ! 0)) (length cs) of
                  Inl e \<Rightarrow> (tr @ [EncoderCall (length cs)], Inl e)
                | Inr _ \<Rightarrow> (tr @ [EncoderCall (length cs)], Inr (finalState (cs @ [c]))))))"
proof (cases cs)
  case Nil
  then show ?thesis
    by (simp add: finalState_def Let_def split: sum.splits)
next
  case (Cons c0 rest)
  then show ?thesis
    by (simp add: finalState_def Let_def split: sum.splits)
qed

lemma accepted_Nil: "accepted env [] cs \<longleftrightarrow> cs = []"
  by (auto simp: accepted_def)

lemma accepted_snoc:
  "accepted env (items @ [item]) cs' \<longleftrightarrow>
     (\<exists>cs c. cs' = cs @ [c] \<and> accepted env items cs \<and> encodeItem env item = Inr c
        \<and> (cs \<noteq> [] \<longrightarrow>
             validateLayerConsistency c (extractBaseParams (cs ! 0)) (length cs) = Inr ()))"
proof
  assume a: "accepted env (items @ [item]) cs'"
  then have m: "map (encodeItem env) (items @ [item]) = map Inr cs'"
    and v: "\<forall>j. 0 < j \<and> j < length cs' \<longrightarrow>
               validateLayerConsistency (cs' ! j) (extractBaseParams (cs' ! 0)) j = Inr ()"
    by (simp_all add: accepted_def)
  from m have len: "length cs' = Suc (length items)"
    using map_eq_imp_length_eq[OF m] by simp
  then obtain cs c where cs': "cs' = cs @ [c]"
    by (metis length_Suc_conv_rev)
  with len have l: "length cs = length items" by simp
  from m cs' l have m1: "map (encodeItem env) items = map Inr cs" and m2: "encodeItem env item = Inr c"
    by simp_all
  have v1: "\<forall>j. 0 < j \<and> j < length cs \<longrightarrow>
               validateLayerConsistency (cs ! j) (extractBaseParams (cs ! 0)) j = Inr ()"
  proof (intro allI impI)
    fix j assume j: "0 < j \<and> j < length cs"
    then have "j < length cs'" by (simp add: cs')
    with v j have "validateLayerConsistency (cs' ! j) (extractBaseParams (cs' ! 0)) j = Inr ()"
      by blast
    moreover from j have "cs \<noteq> []" by auto
    ultimately show "validateLayerConsistency (cs ! j) (extractBaseParams (cs ! 0)) j = Inr ()"
      using j by (simp add: cs' nth_append)
  qed
  have v2: "cs \<noteq> [] \<longrightarrow>
             validateLayerConsistency c (extractBaseParams (cs ! 0)) (length cs) = Inr ()"
  proof
    assume ne: "cs \<noteq> []"
    then have "0 < length cs \<and> length cs < length cs'" by (simp add: cs')
    with v have "validateLayerConsistency (cs' ! length cs) (extractBaseParams (cs' ! 0)) (length cs) = Inr ()"
      by blast
    with ne show "validateLayerConsistency c (extractBaseParams (cs ! 0)) (length cs) = Inr ()"
      by (simp add: cs' nth_append)
  qed
  from cs' m1 m2 v1 v2 show "\<exists>cs c. cs' = cs @ [c] \<and> accepted env items cs \<and> encodeItem env item = Inr c
        \<and> (cs \<noteq> [] \<longrightarrow>
             validateLayerConsistency c (extractBaseParams (cs ! 0)) (length cs) = Inr ())"
    by (auto simp: accepted_def)
next
  assume "\<exists>cs c. cs' = cs @ [c] \<and> accepted env items cs \<and> encodeItem env item = Inr c
        \<and> (cs \<noteq> [] \<longrightarrow>
             validateLayerConsistency c (extractBaseParams (cs ! 0)) (length cs) = Inr ())"
  then obtain cs c where cs': "cs' = cs @ [c]" and a: "accepted env items cs"
    and e: "encodeItem env item = Inr c"
    and v2: "cs \<noteq> [] \<longrightarrow>
             validateLayerConsistency c (extractBaseParams (cs ! 0)) (length cs) = Inr ()"
    by blast
  from a have m1: "map (encodeItem env) items = map Inr cs"
    and v1: "\<forall>j. 0 < j \<and> j < length cs \<longrightarrow>
               validateLayerConsistency (cs ! j) (extractBaseParams (cs ! 0)) j = Inr ()"
    by (simp_all add: accepted_def)
  have "validateLayerConsistency (cs' ! j) (extractBaseParams (cs' ! 0)) j = Inr ()"
    if j: "0 < j \<and> j < length cs'" for j
  proof (cases "j < length cs")
    case True
    then have "cs \<noteq> []" by auto
    with True v1 j show ?thesis by (simp add: cs' nth_append)
  next
    case False
    with j have jj: "j = length cs" by (simp add: cs')
    with j have "cs \<noteq> []" by auto
    with v2 jj show ?thesis by (simp add: cs' nth_append)
  qed
  with m1 e show "accepted env (items @ [item]) cs'"
    by (simp add: accepted_def cs')
qed

lemma accepted_length: "accepted env items cs \<Longrightarrow> length cs = length items"
  unfolding accepted_def using map_eq_imp_length_eq[of "encodeItem env" items Inr cs]
  by simp

lemma run_ok:
  "accepted env items cs \<Longrightarrow>
   encodeLoop env (map Inr items) (finalState []) []
     = (map EncoderCall [0..<length items], Inr (finalState cs))"
proof (induction items arbitrary: cs rule: rev_induct)
  case Nil
  then show ?case by (simp add: accepted_Nil)
next
  case (snoc item items)
  from snoc.prems obtain cs0 c where cs: "cs = cs0 @ [c]" and a: "accepted env items cs0"
    and e: "encodeItem env item = Inr c"
    and v: "cs0 \<noteq> [] \<longrightarrow>
             validateLayerConsistency c (extractBaseParams (cs0 ! 0)) (length cs0) = Inr ()"
    unfolding accepted_snoc by blast
  have l: "length cs0 = length items" by (rule accepted_length[OF a])
  show ?case
    using snoc.IH[OF a] e v l
    by (auto simp add: encodeLoop_append encodeLoop_step cs simp del: encodeLoop.simps)
qed

lemma run_inv:
  "encodeLoop env src (finalState []) [] = (tr, Inr st) \<Longrightarrow>
   \<exists>items cs. src = map Inr items \<and> accepted env items cs \<and> st = finalState cs
      \<and> tr = map EncoderCall [0..<length items]"
proof (induction src arbitrary: tr st rule: rev_induct)
  case Nil
  then have "st = finalState []" "tr = []" by simp_all
  then show ?case by (intro exI[of _ "[]"]) (simp add: accepted_Nil)
next
  case (snoc x src)
  obtain tr1 r1 where r: "encodeLoop env src (finalState []) [] = (tr1, r1)"
    by (cases "encodeLoop env src (finalState []) []")
  show ?case
  proof (cases r1)
    case (Inl e)
    with r snoc.prems show ?thesis by (simp add: encodeLoop_append del: encodeLoop.simps)
  next
    case (Inr st1)
    from snoc.IH[OF r[unfolded Inr]] obtain items cs
      where src: "src = map Inr items" and a: "accepted env items cs"
        and st1: "st1 = finalState cs" and tr1: "tr1 = map EncoderCall [0..<length items]"
      by blast
    have l: "length cs = length items" by (rule accepted_length[OF a])
    from snoc.prems r Inr st1
    have last: "encodeLoop env [x] (finalState cs) tr1 = (tr, Inr st)"
      by (simp add: encodeLoop_append del: encodeLoop.simps)
    then obtain item where x: "x = Inr item" by (cases x) auto
    from last x obtain c where e: "encodeItem env item = Inr c"
      by (cases "encodeItem env item") (auto simp: encodeLoop_step simp del: encodeLoop.simps)
    from last x e
    have v: "cs \<noteq> [] \<longrightarrow>
             validateLayerConsistency c (extractBaseParams (cs ! 0)) (length cs) = Inr ()"
      and st: "st = finalState (cs @ [c])" and tr: "tr = tr1 @ [EncoderCall (length cs)]"
      by (auto simp: encodeLoop_step simp del: encodeLoop.simps split: if_splits sum.splits)
    have "accepted env (items @ [item]) (cs @ [c])"
      unfolding accepted_snoc using a e v by blast
    moreover have "x # [] = [Inr item]" using x by simp
    ultimately show ?thesis
      using src x st tr tr1 l
      by (intro exI[of _ "items @ [item]"] exI[of _ "cs @ [c]"]) simp
  qed
qed

lemma initial_state: "\<lparr> encodedLayers = [], baseParams = None, layerIndex = 0 \<rparr> = finalState []"
  by (simp add: finalState_def)

lemma validate_mismatch:
  assumes "pixelWidth c \<noteq> pixelWidth c0 \<or> pixelHeight c \<noteq> pixelHeight c0
           \<or> length (levels c) \<noteq> length (levels c0)"
  shows "\<exists>err. validateLayerConsistency c (extractBaseParams c0) i = Inl err
           \<and> err \<in> {FormatMismatch i (vkFormat c0) (vkFormat c),
                    SizeMismatch i (pixelWidth c0) (pixelHeight c0) (pixelWidth c) (pixelHeight c),
                    MipCountMismatch i (length (levels c0)) (length (levels c))}"
  using assms by (auto simp: validateLayerConsistency_def extractBaseParams_def)

subsection \<open>The image generator\<close>

lemma imageGeneratorLoop_done:
  "length urls \<le> i \<Longrightarrow> imageGeneratorLoop env urls i p = []"
  by (subst imageGeneratorLoop.simps) simp

lemma imageGeneratorLoop_pull:
  "i < length urls \<Longrightarrow>
   imageGeneratorLoop env urls i (fetch env (urls ! i)) = pullInOrder env i (drop i urls)"
proof (induction "length urls - i" arbitrary: i)
  case 0
  then show ?case by simp
next
  case (Suc n)
  have d: "drop i urls = urls ! i # drop (Suc i) urls"
    using Suc.prems by (simp add: Cons_nth_drop_Suc)
  show ?case
  proof (cases "fetch env (urls ! i)")
    case (Inl e)
    then show ?thesis
      using Suc.prems by (subst imageGeneratorLoop.simps) (simp add: d)
  next
    case (Inr data)
    show ?thesis
    proof (cases "Suc i < length urls")
      case True
      have "n = length urls - Suc i" using Suc.hyps(2) by simp
      from Suc.hyps(1)[OF this True]
      have "imageGeneratorLoop env urls (Suc i) (fetch env (urls ! Suc i))
            = pullInOrder env (Suc i) (drop (Suc i) urls)" .
      then show ?thesis
        using Suc.prems Inr True by (subst imageGeneratorLoop.simps) (simp add: d)
    next
      case False
      then have e: "drop (Suc i) urls = []" by simp
      have "imageGeneratorLoop env urls (Suc i) (Inr data) = []"
        using False by (intro imageGeneratorLoop_done) simp
      then show ?thesis
        using Suc.prems Inr False by (subst imageGeneratorLoop.simps) (simp add: d e)
    qed
  qed
qed

lemma imageGenerator_pull:
  "urls \<noteq> [] \<Longrightarrow> imageGenerator env urls = pullInOrder env 0 urls"
  using imageGeneratorLoop_pull[of 0 urls env] by (simp add: imageGenerator_def)

lemma upt_0_Suc: "[0..<Suc n] = 0 # map Suc [0..<n]"
  by (simp add: upt_conv_Cons map_Suc_upt del: upt_Suc)

lemma pullInOrder_all:
  "pullInOrder env i us = map Inr items \<longleftrightarrow>
     (\<exists>datas. map (fetch env) us = map Inr datas
        \<and> items = map (\<lambda>j. imageItem (i + j) (us ! j) (datas ! j)) [0..<length us])"
proof (induction us arbitrary: i items)
  case Nil
  then show ?case by auto
next
  case (Cons u us)
  show ?case
  proof (cases "fetch env u")
    case (Inl e)
    then show ?thesis by (cases items) auto
  next
    case (Inr d)
    show ?thesis
    proof
      assume "pullInOrder env i (u # us) = map Inr items"
      with Inr obtain its where items: "items = imageItem i u d # its"
        and rest: "pullInOrder env (Suc i) us = map Inr its"
        by (cases items) auto
      from rest Cons.IH[of "Suc i" its] obtain datas
        where f: "map (fetch env) us = map Inr datas"
          and its: "its = map (\<lambda>j. imageItem (Suc i + j) (us ! j) (datas ! j)) [0..<length us]"
        by blast
      have "map (fetch env) (u # us) = map Inr (d # datas)" using Inr f by simp
      moreover have "items = map (\<lambda>j. imageItem (i + j) ((u # us) ! j) ((d # datas) ! j))
                              [0..<length (u # us)]"
        using items its by (simp add: upt_0_Suc o_def del: upt_Suc)
      ultimately show "\<exists>datas. map (fetch env) (u # us) = map Inr datas
        \<and> items = map (\<lambda>j. imageItem (i + j) ((u # us) ! j) (datas ! j)) [0..<length (u # us)]"
        by blast
    next
      assume "\<exists>datas. map (fetch env) (u # us) = map Inr datas
        \<and> items = map (\<lambda>j. imageItem (i + j) ((u # us) ! j) (datas ! j)) [0..<length (u # us)]"
      then obtain datas where f: "map (fetch env) (u # us) = map Inr datas"
        and items: "items = map (\<lambda>j. imageItem (i + j) ((u # us) ! j) (datas ! j))
                              [0..<length (u # us)]"
        by blast
      from f Inr obtain ds where datas: "datas = d # ds" and f': "map (fetch env) us = map Inr ds"
        by (cases datas) auto
      define its where "its = map (\<lambda>j. imageItem (Suc i + j) (us ! j) (ds ! j)) [0..<length us]"
      have "pullInOrder env (Suc i) us = map Inr its"
        unfolding Cons.IH[of "Suc i" its] using f' its_def by blast
      moreover have "items = imageItem i u d # its"
        using items datas by (simp add: upt_0_Suc o_def its_def del: upt_Suc)
      ultimately show "pullInOrder env i (u # us) = map Inr items"
        using Inr by simp
    qed
  qed
qed

subsection \<open>Collecting outcomes\<close>

lemma collect_map_Inr: "collect (map Inr ys) = Inr ys"
  by (induction ys) simp_all

lemma collect_Inr_D: "collect xs = Inr ys \<Longrightarrow> xs = map Inr ys"
proof (induction xs arbitrary: ys)
  case Nil
  then show ?case by simp
next
  case (Cons x xs)
  show ?case
  proof (cases x)
    case (Inl e)
    with Cons.prems show ?thesis by simp
  next
    case (Inr v)
    with Cons.prems obtain zs where z: "collect xs = Inr zs" and ys: "ys = v # zs"
      by (auto split: sum.splits)
    from Cons.IH[OF z] ys Inr show ?thesis by simp
  qed
qed

lemma collect_Inr: "collect xs = Inr ys \<longleftrightarrow> xs = map Inr ys"
  using collect_Inr_D collect_map_Inr by blast

lemma units_all: "map f js = map Inr (us :: unit list) \<longleftrightarrow> length us = length js \<and> (\<forall>j\<in>set js. f j = Inr ())"
proof (induction js arbitrary: us)
  case Nil
  then show ?case by auto
next
  case (Cons j js)
  then show ?case by (cases us) auto
qed

lemma validations_collected:
  "(\<exists>us. collect (map (\<lambda>i. validateLayerConsistency (cs ! i) bp i) [1..<length cs]) = Inr us)
   \<longleftrightarrow> (\<forall>j. 0 < j \<and> j < length cs \<longrightarrow> validateLayerConsistency (cs ! j) bp j = Inr ())"
proof -
  have "(\<exists>us::unit list. length us = length [1..<length cs]) = True"
    using Ex_list_of_length by auto
  then show ?thesis
    unfolding collect_Inr units_all by (auto simp: Suc_le_eq)
qed

lemma encode_success:
  "snd (encode env src) = Inr out \<longleftrightarrow>
     (\<exists>items cs cl. src = map Inr items \<and> accepted env items cs \<and> cs \<noteq> []
        \<and> assembleMipLevels (map toEncodedLayer cs) (Some (extractBaseParams (cs ! 0))) = Inr cl
        \<and> write_ktx env (createArrayContainer (map toEncodedLayer cs)
                           (extractBaseParams (cs ! 0)) cl) = Inr out)"
proof
  assume s: "snd (encode env src) = Inr out"
  obtain tr r where loop: "encodeLoop env src (finalState []) [] = (tr, r)"
    by (cases "encodeLoop env src (finalState []) []")
  show "\<exists>items cs cl. src = map Inr items \<and> accepted env items cs \<and> cs \<noteq> []
        \<and> assembleMipLevels (map toEncodedLayer cs) (Some (extractBaseParams (cs ! 0))) = Inr cl
        \<and> write_ktx env (createArrayContainer (map toEncodedLayer cs)
                           (extractBaseParams (cs ! 0)) cl) = Inr out"
  proof (cases r)
    case (Inl e)
    with s loop show ?thesis by (simp add: encode_def initial_state)
  next
    case (Inr st)
    from run_inv[OF loop[unfolded Inr]] obtain items cs
      where src: "src = map Inr items" and a: "accepted env items cs" and st: "st = finalState cs"
      by blast
    show ?thesis
    proof (cases "assembleMipLevels (encodedLayers st) (baseParams st)")
      case (Inl e)
      with s loop Inr show ?thesis by (simp add: encode_def initial_state)
    next
      case cl: (Inr cl)
      show ?thesis
      proof (cases "baseParams st")
        case None
        with s loop Inr cl show ?thesis by (simp add: encode_def initial_state)
      next
        case (Some bp)
        then have ne: "cs \<noteq> []" using st by (auto simp: finalState_sel)
        then have bp: "bp = extractBaseParams (cs ! 0)"
          using Some st by (simp add: finalState_sel)
        from s loop Inr cl Some
        have w: "write_ktx env (createArrayContainer (encodedLayers st) bp cl) = Inr out"
          by (simp add: encode_def initial_state)
        from cl Some have c: "assembleMipLevels (encodedLayers st) (Some bp) = Inr cl" by simp
        from src a ne c w show ?thesis
          unfolding bp st finalState_sel by blast
      qed
    qed
  qed
next
  assume "\<exists>items cs cl. src = map Inr items \<and> accepted env items cs \<and> cs \<noteq> []
        \<and> assembleMipLevels (map toEncodedLayer cs) (Some (extractBaseParams (cs ! 0))) = Inr cl
        \<and> write_ktx env (createArrayContainer (map toEncodedLayer cs)
                           (extractBaseParams (cs ! 0)) cl) = Inr out"
  then obtain items cs cl where src: "src = map Inr items" and a: "accepted env items cs"
    and ne: "cs \<noteq> []"
    and c: "assembleMipLevels (map toEncodedLayer cs) (Some (extractBaseParams (cs ! 0))) = Inr cl"
    and w: "write_ktx env (createArrayContainer (map toEncodedLayer cs)
                           (extractBaseParams (cs ! 0)) cl) = Inr out"
    by blast
  show "snd (encode env src) = Inr out"
    using run_ok[OF a] ne c w
    by (simp add: encode_def initial_state src finalState_sel)
qed

lemma eager_success:
  "spec_eager_assembly env urls = Inr out \<longleftrightarrow>
     urls \<noteq> [] \<and>
     (\<exists>datas cs cl. map (fetch env) urls = map Inr datas
        \<and> map (\<lambda>i. encodeItem env (imageItem i (urls ! i) (datas ! i))) [0..<length urls]
            = map Inr cs
        \<and> (\<forall>j. 0 < j \<and> j < length cs \<longrightarrow>
              validateLayerConsistency (cs ! j) (extractBaseParams (cs ! 0)) j = Inr ())
        \<and> assembleMipLevels (map toEncodedLayer cs) (Some (extractBaseParams (cs ! 0))) = Inr cl
        \<and> write_ktx env (createArrayContainer (map toEncodedLayer cs)
                           (extractBaseParams (cs ! 0)) cl) = Inr out)"
proof (cases "urls = []")
  case True
  then show ?thesis by (simp add: spec_eager_assembly_def)
next
  case ne: False
  show ?thesis
  proof (cases "collect (map (fetch env) urls)")
    case (Inl e)
    then have "\<nexists>datas. map (fetch env) urls = map Inr datas"
      using collect_map_Inr by (metis sum.distinct(1))
    with Inl ne show ?thesis by (simp add: spec_eager_assembly_def)
  next
    case datas: (Inr datas)
    then have f: "map (fetch env) urls = map Inr datas" by (rule collect_Inr_D)
    have uniq: "map (fetch env) urls = map Inr ds \<longleftrightarrow> ds = datas" for ds
      using f by (auto simp: inj_map_eq_map)
    let ?enc = "map (\<lambda>i. encodeItem env (imageItem i (urls ! i) (datas ! i))) [0..<length urls]"
    show ?thesis
    proof (cases "collect ?enc")
      case (Inl e)
      then have "\<nexists>cs. ?enc = map Inr cs"
        using collect_map_Inr by (metis sum.distinct(1))
      with Inl ne datas show ?thesis by (simp add: spec_eager_assembly_def uniq)
    next
      case cs: (Inr cs)
      then have e: "?enc = map Inr cs" by (rule collect_Inr_D)
      have uniq2: "?enc = map Inr cs' \<longleftrightarrow> cs' = cs" for cs'
        using e by (auto simp: inj_map_eq_map)
      let ?bp = "extractBaseParams (cs ! 0)"
      show ?thesis
      proof (cases "collect (map (\<lambda>i. validateLayerConsistency (cs ! i) ?bp i) [1..<length cs])")
        case (Inl e')
        with validations_collected[of cs ?bp]
        have "\<not> (\<forall>j. 0 < j \<and> j < length cs \<longrightarrow>
                validateLayerConsistency (cs ! j) ?bp j = Inr ())"
          by auto
        with Inl ne datas cs show ?thesis
          by (simp add: spec_eager_assembly_def uniq uniq2 Let_def)
      next
        case us: (Inr us)
        with validations_collected[of cs ?bp]
        have v: "\<forall>j. 0 < j \<and> j < length cs \<longrightarrow>
                validateLayerConsistency (cs ! j) ?bp j = Inr ()"
          by blast
        show ?thesis
          using ne datas cs us v
          by (simp add: spec_eager_assembly_def uniq uniq2 Let_def split: sum.splits)
      qed
    qed
  qed
qed

lemma sample_generator:
  "imageGenerator sampleEnv [''a/x.png'', ''bb/y.jpg'']
   = [Inr (ImageFile (replicate 16 7) ''x.png'' ''png''),
      Inr (ImageFile (replicate 16 8) ''y.jpg'' ''jpg'')]"
  by (simp add: imageGenerator_pull imageItem_def split_pop_def sampleEnv_def)

lemma sample_level:
  "assembleMip (sampleBase 0 4 4 0 1)
     [sampleLayer 0 4 4 [sampleLevel 16 7 16], sampleLayer 0 4 4 [sampleLevel 16 8 16]] 0
   = Inr (\<lparr> levelData = replicate 16 7 @ replicate 16 8, uncompressedByteLength = 32 \<rparr>,
          \<lparr> combined = replicate 16 7 @ replicate 16 8, offset = 32, writes = [0, 16] \<rparr>)"
  by (simp add: assembleMip_def Let_def nth_opt_def typed_array_set_def uastc_closed_form pad8_def
       sampleBase_def sampleLayer_def sampleLevel_def)

lemma sample_levels:
  "assembleMipLevels
     [sampleLayer 0 4 4 [sampleLevel 16 7 16], sampleLayer 0 4 4 [sampleLevel 16 8 16]]
     (Some (sampleBase 0 4 4 0 1))
   = Inr [\<lparr> levelData = replicate 16 7 @ replicate 16 8, uncompressedByteLength = 32 \<rparr>]"
proof -
  have "assembleMipLevels
     [sampleLayer 0 4 4 [sampleLevel 16 7 16], sampleLayer 0 4 4 [sampleLevel 16 8 16]]
     (Some (sampleBase 0 4 4 0 1))
        = Inr (map (\<lambda>k. fst (projr (assembleMip (sampleBase 0 4 4 0 1)
     [sampleLayer 0 4 4 [sampleLevel 16 7 16], sampleLayer 0 4 4 [sampleLevel 16 8 16]] k))) [0..<1])"
    by (rule assembleMipLevels_ok) (simp_all add: sampleLayer_def)
  moreover have "[0..<1] = [0::nat]" by simp
  ultimately show ?thesis
    by (simp only: sample_level list.map fst_conv sum.sel)
qed

lemma sample_pipelined:
  "fromImageUrls sampleEnv [''a/x.png'', ''bb/y.jpg'']
   = ([EncoderCall 0, EncoderCall 1, AssemblerCall, WriterCall],
      Inr (replicate 16 7 @ replicate 16 8))"
proof -
  have c: "toEncodedLayer (sampleContainer 0 4 4 0 [sampleLevel 16 b 16])
           = sampleLayer 0 4 4 [sampleLevel 16 b 16]" for b
    by (simp add: toEncodedLayer_def sampleContainer_def sampleLayer_def sampleLevel_def)
  have b: "extractBaseParams (sampleContainer 0 4 4 0 [sampleLevel 16 b 16])
           = sampleBase 0 4 4 0 (Suc 0)" for b
    by (simp add: extractBaseParams_def sampleContainer_def sampleBase_def)
  have e: "encodeItem sampleEnv (ImageFile (replicate 16 x) n ext)
           = Inr (sampleContainer 0 4 4 0 [sampleLevel 16 x 16])" for x n ext
    by (simp add: encodeItem_def sampleEnv_def)
  have v: "validateLayerConsistency (sampleContainer 0 4 4 0 [sampleLevel 16 x 16])
             (sampleBase 0 4 4 0 (Suc 0)) i = Inr ()" for x i
    by (simp add: validateLayerConsistency_def sampleContainer_def sampleBase_def)
  have w: "write_ktx sampleEnv k = Inr (concat (map levelData (levels k)))" for k
    by (simp add: sampleEnv_def)
  have sl: "assembleMipLevels
     [sampleLayer 0 4 4 [sampleLevel 16 7 16], sampleLayer 0 4 4 [sampleLevel 16 8 16]]
     (Some (sampleBase 0 4 4 0 (Suc 0)))
   = Inr [\<lparr> levelData = replicate 16 7 @ replicate 16 8, uncompressedByteLength = 32 \<rparr>]"
    using sample_levels by simp
  show ?thesis
    by (simp add: fromImageUrls_def sample_generator encode_def Let_def e b c v w sl
        createArrayContainer_def)
qed

section \<open>The claims\<close>

text \<open>
  \<^bold>\<open>C1\<close>, as the code has it. The offset advances by the length of what was copied, not by
  \<^verbatim>\<open>exactSize\<close>: with scheme 0 and two 4 by 4 layers (\<^verbatim>\<open>E = 16\<close>, \<^verbatim>\<open>pad = 0\<close>) of which
  the first holds 8 bytes, the second layer is written at offset 8, so the first layer's
  slot has 8 bytes and not \<^verbatim>\<open>E + pad = 16\<close>; the buffer still has \<^verbatim>\<open>2 * 16\<close> bytes.
\<close>

theorem short_payload_shifts_next_slot:
  "baseSupercompression (sampleBase 0 4 4 0 1) = 0
   \<and> uastcBytesPerImageAtLevel 0 (baseWidth (sampleBase 0 4 4 0 1))
         (baseHeight (sampleBase 0 4 4 0 1)) = 16
   \<and> pad8 16 = 0
   \<and> assembleMip (sampleBase 0 4 4 0 1) shortLayers 0
       = Inr (\<lparr> levelData = replicate 8 1 @ replicate 16 2 @ replicate 8 0,
                uncompressedByteLength = 32 \<rparr>,
              \<lparr> combined = replicate 8 1 @ replicate 16 2 @ replicate 8 0,
                offset = 24, writes = [0, 8] \<rparr>)
   \<and> assembleMipLevels shortLayers (Some (sampleBase 0 4 4 0 1))
       = Inr [\<lparr> levelData = replicate 8 1 @ replicate 16 2 @ replicate 8 0,
                 uncompressedByteLength = 32 \<rparr>]
   \<and> [0, 8] \<noteq> [0, 1 * (16 + pad8 16)]"
proof -
  have "assembleMipLevels shortLayers (Some (sampleBase 0 4 4 0 1))
        = Inr (map (\<lambda>k. fst (projr (assembleMip (sampleBase 0 4 4 0 1) shortLayers k))) [0..<1])"
    by (rule assembleMipLevels_ok) (simp_all add: shortLayers_def sampleLayer_def)
  moreover have "[0..<1] = [0::nat]" by simp
  ultimately have "assembleMipLevels shortLayers (Some (sampleBase 0 4 4 0 1))
       = Inr [\<lparr> levelData = replicate 8 1 @ replicate 16 2 @ replicate 8 0,
                 uncompressedByteLength = 32 \<rparr>]"
    by (simp only: shortLayers_level list.map fst_conv sum.sel)
  moreover have "uastcBytesPerImageAtLevel 0 (baseWidth (sampleBase 0 4 4 0 1))
         (baseHeight (sampleBase 0 4 4 0 1)) = 16"
    by (simp add: sampleBase_def uastc_closed_form)
  ultimately show ?thesis
    using shortLayers_level by (simp add: sampleBase_def pad8_def)
qed

text \<open>
  \<^bold>\<open>C1\<close>, amended. Scheme 0 and layers that all have the first layer's number of levels; \<^verbatim>\<open>E\<close>
  is the exact size at mip \<^verbatim>\<open>m\<close> and \<^verbatim>\<open>pad = (8 - E % 8) % 8\<close>. Then the assembly
  succeeds, the combined level \<^verbatim>\<open>m\<close> has \<^verbatim>\<open>layerCount * (E + pad)\<close> bytes, and its
  \<^verbatim>\<open>uncompressedByteLength\<close> is that total. When the payloads at \<^verbatim>\<open>m\<close> have at least
  \<^verbatim>\<open>E\<close> bytes each (the data model's invariant for scheme "none"; encoders may
  over-allocate), the level is the concatenation, in layer order, of each payload's first
  \<^verbatim>\<open>E\<close> bytes followed by \<^verbatim>\<open>pad\<close> zero bytes, and layer \<^verbatim>\<open>i\<close> is written at offset
  \<^verbatim>\<open>i * (E + pad)\<close>: every slot has exactly \<^verbatim>\<open>E + pad\<close> bytes.
\<close>

theorem padded_slots_scheme_none:
  assumes sc: "baseSupercompression bp = 0"
    and ne: "layers \<noteq> []"
    and mc: "\<forall>layer\<in>set layers. length (layerLevels layer) = mipCount"
    and m: "m < mipCount"
    and E: "E = uastcBytesPerImageAtLevel m (baseWidth bp) (baseHeight bp)"
  shows "\<exists>cl st. assembleMipLevels layers (Some bp) = Inr cl
           \<and> length cl = mipCount
           \<and> assembleMip bp layers m = Inr (cl ! m, st)
           \<and> length (levelData (cl ! m)) = length layers * (E + pad8 E)
           \<and> uncompressedByteLength (cl ! m) = length layers * (E + pad8 E)
           \<and> ((\<forall>layer\<in>set layers. E \<le> length (levelData (layerLevels layer ! m))) \<longrightarrow>
                 levelData (cl ! m)
                   = concat (map (\<lambda>layer. take E (levelData (layerLevels layer ! m))
                                            @ replicate (pad8 E) 0) layers)
                 \<and> writes st = map (\<lambda>i. i * (E + pad8 E)) [0..<length layers])"
proof -
  define ls where "ls = map (\<lambda>layer. layerLevels layer ! m) layers"
  define slots where "slots = map (layerSlot 0 E (pad8 E)) ls"
  define tot where "tot = (E + pad8 E) * length layers"
  define cl where "cl = map (\<lambda>k. fst (projr (assembleMip bp layers k))) [0..<mipCount]"
  define buf where "buf = concat slots @ replicate (tot - length (concat slots)) 0"
  define st where "st = \<lparr> combined = buf, offset = length (concat slots),
                           writes = slot_offsets 0 slots \<rparr>"
  have lv: "\<forall>layer\<in>set layers. m < length (layerLevels layer)" using mc m by simp
  have lf: "map (\<lambda>layer. nth_opt (layerLevels layer) m) layers = map Some ls"
    unfolding ls_def by (rule layersForThisMip_Some[OF lv])
  have len: "length ls = length layers" by (simp add: ls_def)
  have fit: "length (concat slots) \<le> tot"
    using slots_length_le[of E "pad8 E" ls] by (simp add: slots_def tot_def len)
  have one: "assembleMip bp layers m = Inr (\<lparr> levelData = buf, uncompressedByteLength = tot \<rparr>, st)"
    using assembleMip_none[OF lf sc E slots_def tot_def] by (simp add: buf_def st_def)
  have all: "assembleMipLevels layers (Some bp) = Inr cl"
    unfolding cl_def by (rule assembleMipLevels_ok[OF ne mc])
  have nth: "cl ! m = \<lparr> levelData = buf, uncompressedByteLength = tot \<rparr>"
    using m one by (simp add: cl_def)
  have size: "length buf = tot" using fit by (simp add: buf_def)
  have layout: "levelData (cl ! m)
                   = concat (map (\<lambda>layer. take E (levelData (layerLevels layer ! m))
                                            @ replicate (pad8 E) 0) layers)
                 \<and> writes st = map (\<lambda>i. i * (E + pad8 E)) [0..<length layers]"
    if big: "\<forall>layer\<in>set layers. E \<le> length (levelData (layerLevels layer ! m))"
  proof -
    have big': "\<forall>l\<in>set ls. E \<le> length (levelData l)" using big by (simp add: ls_def)
    have full: "length (concat slots) = tot"
      using slots_length_exact[OF big', of "pad8 E"] by (simp add: slots_def tot_def len)
    have uni: "\<forall>s\<in>set slots. length s = E + pad8 E"
      using big' by (auto simp: slots_def layerSlot_exact_length)
    have "buf = concat (map (\<lambda>layer. take E (levelData (layerLevels layer ! m))
                                        @ replicate (pad8 E) 0) layers)"
      using full by (simp add: buf_def slots_def ls_def layerSlot_def o_def)
    moreover have "slot_offsets 0 slots = map (\<lambda>i. i * (E + pad8 E)) [0..<length layers]"
      using slot_offsets_uniform[OF uni, of 0] by (simp add: slots_def len)
    ultimately show ?thesis using nth by (simp add: st_def)
  qed
  show ?thesis
  proof (intro exI conjI impI)
    show "assembleMipLevels layers (Some bp) = Inr cl" by (rule all)
    show "length cl = mipCount" by (simp add: cl_def)
    show "assembleMip bp layers m = Inr (cl ! m, st)" using one nth by simp
    show "length (levelData (cl ! m)) = length layers * (E + pad8 E)"
      using nth size by (simp add: tot_def)
    show "uncompressedByteLength (cl ! m) = length layers * (E + pad8 E)"
      using nth by (simp add: tot_def)
  next
    assume big: "\<forall>layer\<in>set layers. E \<le> length (levelData (layerLevels layer ! m))"
    from layout[OF big]
    show "levelData (cl ! m)
                   = concat (map (\<lambda>layer. take E (levelData (layerLevels layer ! m))
                                            @ replicate (pad8 E) 0) layers)"
      and "writes st = map (\<lambda>i. i * (E + pad8 E)) [0..<length layers]"
      by simp_all
  qed
qed

theorem padded_slots_scheme_none_witness:
  "\<exists>cl st. assembleMipLevels twoLayers (Some (sampleBase 0 8 4 0 2)) = Inr cl
     \<and> length cl = 2
     \<and> assembleMip (sampleBase 0 8 4 0 2) twoLayers 0 = Inr (cl ! 0, st)
     \<and> length (levelData (cl ! 0)) = 64
     \<and> uncompressedByteLength (cl ! 0) = 64
     \<and> levelData (cl ! 0) = replicate 32 1 @ replicate 32 3
     \<and> writes st = [0, 32]"
proof -
  have h: "baseSupercompression (sampleBase 0 8 4 0 2) = 0" "twoLayers \<noteq> []"
    "\<forall>layer\<in>set twoLayers. length (layerLevels layer) = 2" "(0::nat) < 2"
    "32 = uastcBytesPerImageAtLevel 0 (baseWidth (sampleBase 0 8 4 0 2))
            (baseHeight (sampleBase 0 8 4 0 2))"
    by (simp_all add: sampleBase_def twoLayers_def sampleLayer_def sampleLevel_def uastc_8_4)
  have big: "\<forall>layer\<in>set twoLayers. 32 \<le> length (levelData (layerLevels layer ! 0))"
    by (simp add: twoLayers_def sampleLayer_def sampleLevel_def)
  from padded_slots_scheme_none[OF h] big show ?thesis
    by (simp add: twoLayers_def sampleLayer_def sampleLevel_def pad8_def)
qed

text \<open>
  \<^bold>\<open>C2\<close>. The size the assembler computes for mip \<^verbatim>\<open>m\<close> is
  \<^verbatim>\<open>ceil(max(1, w >> m)/4) * ceil(max(1, h >> m)/4) * 16\<close> with the shift of JavaScript,
  for every index and every base dimensions. For base dimensions that fit a signed 32-bit
  integer and a mip index below 32 (a texture of such dimensions has at most 32 mip
  levels) the shift is the spec's halving and the size is the spec's exact size. For a
  1024 by 1024 base it is 1,048,576 at mip 0, 262,144 at mip 1 and 16 at the 1 by 1 mip
  (mip 10).
\<close>

theorem exact_size_rule:
  "uastcBytesPerImageAtLevel m baseW baseH
     = nat \<lceil>real_of_int (max 1 (js_sar baseW m)) / 4\<rceil>
       * nat \<lceil>real_of_int (max 1 (js_sar baseH m)) / 4\<rceil> * 16
   \<and> (baseW < 2 ^ 31 \<and> baseH < 2 ^ 31 \<and> m < 32 \<longrightarrow>
        uastcBytesPerImageAtLevel m baseW baseH = spec_exact_size m baseW baseH)
   \<and> uastcBytesPerImageAtLevel 0 1024 1024 = 1048576
   \<and> uastcBytesPerImageAtLevel 1 1024 1024 = 262144
   \<and> uastcBytesPerImageAtLevel 10 1024 1024 = 16"
proof (intro conjI impI)
  have p: "0 \<le> ceil_quarter (max 1 x)" for x
    using ceil_quarter_pos[of "max 1 x"] by simp
  show "uastcBytesPerImageAtLevel m baseW baseH
     = nat \<lceil>real_of_int (max 1 (js_sar baseW m)) / 4\<rceil>
       * nat \<lceil>real_of_int (max 1 (js_sar baseH m)) / 4\<rceil> * 16"
    using p[of "js_sar baseW m"] p[of "js_sar baseH m"]
    by (simp add: uastcBytesPerImageAtLevel_def Let_def nat_mult_distrib ceil_quarter_def)
next
  assume b: "baseW < 2 ^ 31 \<and> baseH < 2 ^ 31 \<and> m < 32"
  have c: "nat \<lceil>real n / 4\<rceil> = (n + 3) div 4" for n :: nat
  proof -
    have "\<lceil>real_of_int (int n) / real_of_int 4\<rceil> = - (- int n div 4)"
      by (rule ceiling_divide_eq_div)
    then have "\<lceil>real n / 4\<rceil> = (int n + 3) div 4" by simp
    then show ?thesis by (simp add: zdiv_int flip: of_nat_add)
  qed
  from b show "uastcBytesPerImageAtLevel m baseW baseH = spec_exact_size m baseW baseH"
    by (simp add: uastc_closed_form spec_exact_size_def dim_at_mip_def c)
next
  show "uastcBytesPerImageAtLevel 0 1024 1024 = 1048576"
    by (simp add: uastc_closed_form)
  show "uastcBytesPerImageAtLevel 1 1024 1024 = 262144"
    by (simp add: uastc_closed_form)
  show "uastcBytesPerImageAtLevel 10 1024 1024 = 16"
    by (simp add: uastc_closed_form)
qed

theorem exact_size_rule_witness:
  "uastcBytesPerImageAtLevel 3 512 256 = spec_exact_size 3 512 256
   \<and> spec_exact_size 3 512 256 = 2048"
proof -
  have h: "(512::nat) < 2 ^ 31 \<and> (256::nat) < 2 ^ 31 \<and> (3::nat) < 32" by simp
  have v: "uastcBytesPerImageAtLevel 3 512 256 = 2048"
    by (simp add: uastc_closed_form)
  from exact_size_rule[of 3 512 256] h
  have "uastcBytesPerImageAtLevel 3 512 256 = spec_exact_size 3 512 256" by blast
  with v show ?thesis by simp
qed

text \<open>
  \<^bold>\<open>C3\<close>. Any other scheme, layers that all have the first layer's number of levels.
  Then the assembly succeeds, the combined level \<^verbatim>\<open>m\<close> is the concatenation of the
  layers' payloads as they are, its size is the sum of their lengths, and
  \<^verbatim>\<open>uncompressedByteLength\<close> is the sum of the layers' own values.
\<close>

theorem verbatim_copy_compressed:
  assumes sc: "baseSupercompression bp \<noteq> 0"
    and ne: "layers \<noteq> []"
    and mc: "\<forall>layer\<in>set layers. length (layerLevels layer) = mipCount"
    and m: "m < mipCount"
  shows "\<exists>cl. assembleMipLevels layers (Some bp) = Inr cl
           \<and> length cl = mipCount
           \<and> levelData (cl ! m) = concat (map (\<lambda>layer. levelData (layerLevels layer ! m)) layers)
           \<and> length (levelData (cl ! m))
               = sum_list (map (\<lambda>layer. length (levelData (layerLevels layer ! m))) layers)
           \<and> uncompressedByteLength (cl ! m)
               = sum_list (map (\<lambda>layer. uncompressedByteLength (layerLevels layer ! m)) layers)"
proof -
  define ls where "ls = map (\<lambda>layer. layerLevels layer ! m) layers"
  define cl where "cl = map (\<lambda>k. fst (projr (assembleMip bp layers k))) [0..<mipCount]"
  have lv: "\<forall>layer\<in>set layers. m < length (layerLevels layer)" using mc m by simp
  have lf: "map (\<lambda>layer. nth_opt (layerLevels layer) m) layers = map Some ls"
    unfolding ls_def by (rule layersForThisMip_Some[OF lv])
  have nth: "cl ! m = \<lparr> levelData = concat (map levelData ls),
                        uncompressedByteLength = sum_list (map uncompressedByteLength ls) \<rparr>"
    using m assembleMip_compressed[OF lf sc refl refl] by (simp add: cl_def)
  have all: "assembleMipLevels layers (Some bp) = Inr cl"
    unfolding cl_def by (rule assembleMipLevels_ok[OF ne mc])
  show ?thesis
  proof (intro exI conjI)
    show "assembleMipLevels layers (Some bp) = Inr cl" by (rule all)
    show "length cl = mipCount" by (simp add: cl_def)
    show "levelData (cl ! m) = concat (map (\<lambda>layer. levelData (layerLevels layer ! m)) layers)"
      using nth by (simp add: ls_def o_def)
    show "length (levelData (cl ! m))
               = sum_list (map (\<lambda>layer. length (levelData (layerLevels layer ! m))) layers)"
      using nth by (simp add: ls_def o_def length_concat)
    show "uncompressedByteLength (cl ! m)
               = sum_list (map (\<lambda>layer. uncompressedByteLength (layerLevels layer ! m)) layers)"
      using nth by (simp add: ls_def o_def)
  qed
qed

theorem verbatim_copy_compressed_witness:
  "\<exists>cl. assembleMipLevels twoLayers (Some (sampleBase 0 8 4 1 2)) = Inr cl
     \<and> length cl = 2
     \<and> levelData (cl ! 0) = replicate 32 1 @ replicate 40 3
     \<and> length (levelData (cl ! 0)) = 72
     \<and> uncompressedByteLength (cl ! 0) = 80"
proof -
  have h: "baseSupercompression (sampleBase 0 8 4 1 2) \<noteq> 0" "twoLayers \<noteq> []"
    "\<forall>layer\<in>set twoLayers. length (layerLevels layer) = 2" "(0::nat) < 2"
    by (simp_all add: sampleBase_def twoLayers_def sampleLayer_def sampleLevel_def)
  from verbatim_copy_compressed[OF h] show ?thesis
    by (simp add: twoLayers_def sampleLayer_def sampleLevel_def)
qed

text \<open>
  \<^bold>\<open>C4\<close>. Validation raises a format mismatch exactly when the base format and the
  layer's format are both non-zero and unequal; the error then names the layer index, the
  base format and the layer's format. A zero on either side never gives a format
  mismatch.
\<close>

theorem format_zero_is_wildcard:
  "validateLayerConsistency container bp i = Inl (FormatMismatch j e a)
   \<longleftrightarrow> baseFormat bp \<noteq> 0 \<and> vkFormat container \<noteq> 0 \<and> vkFormat container \<noteq> baseFormat bp
       \<and> j = i \<and> e = baseFormat bp \<and> a = vkFormat container"
  by (auto simp: validateLayerConsistency_def)

theorem format_zero_is_wildcard_witness:
  "validateLayerConsistency (sampleContainer 152 4 4 0 []) (sampleBase 0 4 4 0 0) 1
     \<noteq> Inl (FormatMismatch 1 0 152)
   \<and> validateLayerConsistency (sampleContainer 152 4 4 0 []) (sampleBase 131 4 4 0 0) 2
     = Inl (FormatMismatch 2 131 152)"
  using format_zero_is_wildcard[of "sampleContainer 152 4 4 0 []" "sampleBase 0 4 4 0 0" 1 1 0 152]
        format_zero_is_wildcard[of "sampleContainer 152 4 4 0 []" "sampleBase 131 4 4 0 0" 2 2 131 152]
  by (simp add: sampleContainer_def sampleBase_def)

text \<open>
  \<^bold>\<open>C5\<close>. Layers that all have level \<^verbatim>\<open>m\<close> with a payload that is not empty. Then the
  level is assembled with one \<^verbatim>\<open>set\<close> call per layer, in layer order; the bytes of
  layer \<^verbatim>\<open>i\<close> (for scheme 0 its first \<^verbatim>\<open>exactSize\<close> bytes, else all of them) are not
  empty and stand in the combined level's buffer from the offset of call \<^verbatim>\<open>i\<close> on; they
  end at or before the offset of call \<^verbatim>\<open>i + 1\<close>, so that the offset of layer \<^verbatim>\<open>i\<close> is
  strictly below the offset of layer \<^verbatim>\<open>i + 1\<close>, in both branches. When the layers all
  have the first layer's number of levels, this buffer is level \<^verbatim>\<open>m\<close> of what
  \<^verbatim>\<open>_assembleMipLevels\<close> returns.
\<close>

theorem layer_offsets_ascending:
  assumes wf: "\<forall>layer\<in>set layers. m < length (layerLevels layer)
                  \<and> levelData (layerLevels layer ! m) \<noteq> []"
    and E: "E = uastcBytesPerImageAtLevel m (baseWidth bp) (baseHeight bp)"
  shows "\<exists>lvl st. assembleMip bp layers m = Inr (lvl, st)
           \<and> combined st = levelData lvl
           \<and> length (writes st) = length layers
           \<and> (\<forall>i<length layers.
                 copiedBytes (baseSupercompression bp) E (layerLevels (layers ! i) ! m) \<noteq> []
                 \<and> take (length (copiedBytes (baseSupercompression bp) E
                                   (layerLevels (layers ! i) ! m)))
                        (drop (writes st ! i) (levelData lvl))
                     = copiedBytes (baseSupercompression bp) E (layerLevels (layers ! i) ! m))
           \<and> (\<forall>i. Suc i < length layers \<longrightarrow>
                 writes st ! i
                   + length (copiedBytes (baseSupercompression bp) E (layerLevels (layers ! i) ! m))
                   \<le> writes st ! Suc i
                 \<and> writes st ! i < writes st ! Suc i)
           \<and> (layers \<noteq> [] \<and> (\<forall>layer\<in>set layers. length (layerLevels layer) = mipCount)
                 \<and> m < mipCount \<longrightarrow>
                (\<exists>cl. assembleMipLevels layers (Some bp) = Inr cl \<and> length cl = mipCount
                      \<and> cl ! m = lvl))"
proof -
  let ?sc = "baseSupercompression bp"
  define ls where "ls = map (\<lambda>layer. layerLevels layer ! m) layers"
  define slots where "slots = map (layerSlot ?sc E (pad8 E)) ls"
  have lv: "\<forall>layer\<in>set layers. m < length (layerLevels layer)" using wf by simp
  have lf: "map (\<lambda>layer. nth_opt (layerLevels layer) m) layers = map Some ls"
    unfolding ls_def by (rule layersForThisMip_Some[OF lv])
  have len: "length ls = length layers" by (simp add: ls_def)
  have slen: "length slots = length layers" by (simp add: slots_def len)
  have Epos: "0 < E" using uastc_ge_16[of m "baseWidth bp" "baseHeight bp"] by (simp add: E)
  from assembleMip_layout[OF lf E slots_def] obtain tot unc
    where fit: "length (concat slots) \<le> tot"
      and r: "assembleMip bp layers m =
                Inr (\<lparr> levelData = concat slots @ replicate (tot - length (concat slots)) 0,
                       uncompressedByteLength = unc \<rparr>,
                     \<lparr> combined = concat slots @ replicate (tot - length (concat slots)) 0,
                       offset = length (concat slots),
                       writes = slot_offsets 0 slots \<rparr>)"
    by blast
  define lvl where "lvl = \<lparr> levelData = concat slots @ replicate (tot - length (concat slots)) 0,
                            uncompressedByteLength = unc \<rparr>"
  define st where "st = \<lparr> combined = concat slots @ replicate (tot - length (concat slots)) 0,
                           offset = length (concat slots),
                           writes = slot_offsets 0 slots \<rparr>"
  have slot_i: "slots ! i = layerSlot ?sc E (pad8 E) (layerLevels (layers ! i) ! m)"
    if "i < length layers" for i
    using that by (simp add: slots_def ls_def)
  have nonempty: "copiedBytes ?sc E (layerLevels (layers ! i) ! m) \<noteq> []"
    if "i < length layers" for i
  proof -
    have "layers ! i \<in> set layers" using that by simp
    with wf have "levelData (layerLevels (layers ! i) ! m) \<noteq> []" by blast
    with Epos show ?thesis by (simp add: copiedBytes_def)
  qed
  have content: "take (length (copiedBytes ?sc E (layerLevels (layers ! i) ! m)))
                      (drop (writes st ! i) (levelData lvl))
                 = copiedBytes ?sc E (layerLevels (layers ! i) ! m)"
    if i: "i < length layers" for i
  proof -
    let ?c = "copiedBytes ?sc E (layerLevels (layers ! i) ! m)"
    obtain padding where p: "slots ! i = ?c @ padding"
      using layerSlot_copied[of ?sc E "pad8 E" "layerLevels (layers ! i) ! m"] slot_i[OF i]
      by auto
    define rest where "rest = drop (writes st ! i) (levelData lvl)"
    have "take (length (slots ! i))
               (drop (slot_offsets 0 slots ! i)
                  (concat slots @ replicate (tot - length (concat slots)) 0)) = slots ! i"
      using i slen by (intro slot_offsets_content) simp
    then have whole: "take (length (slots ! i)) rest = ?c @ padding"
      by (simp add: rest_def st_def lvl_def p)
    have "take (length ?c) rest = take (length ?c) (take (length (slots ! i)) rest)"
      by (simp add: p min_def)
    also have "\<dots> = ?c" unfolding whole by simp
    finally show ?thesis unfolding rest_def .
  qed
  have order: "writes st ! i + length (copiedBytes ?sc E (layerLevels (layers ! i) ! m))
                 \<le> writes st ! Suc i
               \<and> writes st ! i < writes st ! Suc i"
    if si: "Suc i < length layers" for i
  proof -
    let ?c = "copiedBytes ?sc E (layerLevels (layers ! i) ! m)"
    have i: "i < length layers" using si by simp
    obtain padding where p: "slots ! i = ?c @ padding"
      using layerSlot_copied[of ?sc E "pad8 E" "layerLevels (layers ! i) ! m"] slot_i[OF i]
      by auto
    have "slot_offsets 0 slots ! Suc i = slot_offsets 0 slots ! i + length (slots ! i)"
      using si slen by (intro slot_offsets_next) simp
    then have a: "writes st ! i + length ?c \<le> writes st ! Suc i"
      by (simp add: st_def p)
    moreover have "0 < length ?c" using nonempty[OF i] by simp
    ultimately show ?thesis by linarith
  qed
  have whole: "\<exists>cl. assembleMipLevels layers (Some bp) = Inr cl \<and> length cl = mipCount
                      \<and> cl ! m = lvl"
    if w: "layers \<noteq> [] \<and> (\<forall>layer\<in>set layers. length (layerLevels layer) = mipCount)
           \<and> m < mipCount"
  proof -
    from w have ne: "layers \<noteq> []"
      and mc: "\<forall>layer\<in>set layers. length (layerLevels layer) = mipCount"
      and m: "m < mipCount" by simp_all
    have "assembleMipLevels layers (Some bp)
          = Inr (map (\<lambda>k. fst (projr (assembleMip bp layers k))) [0..<mipCount])"
      by (rule assembleMipLevels_ok[OF ne mc])
    moreover have "map (\<lambda>k. fst (projr (assembleMip bp layers k))) [0..<mipCount] ! m = lvl"
      using m r by (simp add: lvl_def)
    ultimately show ?thesis by simp
  qed
  have r': "assembleMip bp layers m = Inr (lvl, st)" using r by (simp add: lvl_def st_def)
  have c: "combined st = levelData lvl" by (simp add: lvl_def st_def)
  have n: "length (writes st) = length layers"
    by (simp add: st_def slot_offsets_length slen)
  from r' c n nonempty content order whole show ?thesis by blast
qed

theorem layer_offsets_ascending_witness:
  "\<exists>lvl st. assembleMip (sampleBase 0 4 4 0 1) shortLayers 0 = Inr (lvl, st)
     \<and> length (writes st) = 2
     \<and> take 8 (drop (writes st ! 0) (levelData lvl)) = replicate 8 1
     \<and> take 16 (drop (writes st ! 1) (levelData lvl)) = replicate 16 2
     \<and> writes st ! 0 + 8 \<le> writes st ! 1
     \<and> writes st ! 0 < writes st ! 1"
proof -
  let ?B = "sampleBase 0 4 4 0 1"
  have h: "\<forall>layer\<in>set shortLayers. 0 < length (layerLevels layer)
                  \<and> levelData (layerLevels layer ! 0) \<noteq> []"
    by (simp add: shortLayers_def sampleLayer_def sampleLevel_def)
  have E: "16 = uastcBytesPerImageAtLevel 0 (baseWidth ?B) (baseHeight ?B)"
    by (simp add: sampleBase_def uastc_closed_form)
  have c0: "copiedBytes (baseSupercompression ?B) 16 (layerLevels (shortLayers ! 0) ! 0)
            = replicate 8 1"
    and c1: "copiedBytes (baseSupercompression ?B) 16 (layerLevels (shortLayers ! 1) ! 0)
            = replicate 16 2"
    by (simp_all add: copiedBytes_def sampleBase_def shortLayers_def sampleLayer_def
        sampleLevel_def)
  from layer_offsets_ascending[OF h E] obtain lvl st
    where a: "assembleMip ?B shortLayers 0 = Inr (lvl, st)"
      and b: "length (writes st) = length shortLayers"
      and c: "\<forall>i<length shortLayers.
                 copiedBytes (baseSupercompression ?B) 16 (layerLevels (shortLayers ! i) ! 0) \<noteq> []
                 \<and> take (length (copiedBytes (baseSupercompression ?B) 16
                                   (layerLevels (shortLayers ! i) ! 0)))
                        (drop (writes st ! i) (levelData lvl))
                     = copiedBytes (baseSupercompression ?B) 16 (layerLevels (shortLayers ! i) ! 0)"
      and d: "\<forall>i. Suc i < length shortLayers \<longrightarrow>
                 writes st ! i
                   + length (copiedBytes (baseSupercompression ?B) 16
                       (layerLevels (shortLayers ! i) ! 0))
                   \<le> writes st ! Suc i
                 \<and> writes st ! i < writes st ! Suc i"
    by blast
  have l2: "length shortLayers = 2" by (simp add: shortLayers_def)
  from c l2 have "take (length (copiedBytes (baseSupercompression ?B) 16
                                   (layerLevels (shortLayers ! 0) ! 0)))
                        (drop (writes st ! 0) (levelData lvl))
                     = copiedBytes (baseSupercompression ?B) 16 (layerLevels (shortLayers ! 0) ! 0)"
    by simp
  then have t0: "take 8 (drop (writes st ! 0) (levelData lvl)) = replicate 8 1"
    unfolding c0 by simp
  from c l2 have "take (length (copiedBytes (baseSupercompression ?B) 16
                                   (layerLevels (shortLayers ! 1) ! 0)))
                        (drop (writes st ! 1) (levelData lvl))
                     = copiedBytes (baseSupercompression ?B) 16 (layerLevels (shortLayers ! 1) ! 0)"
    by simp
  then have t1: "take 16 (drop (writes st ! 1) (levelData lvl)) = replicate 16 2"
    unfolding c1 by simp
  from d l2 have "writes st ! 0
                   + length (copiedBytes (baseSupercompression ?B) 16
                       (layerLevels (shortLayers ! 0) ! 0))
                   \<le> writes st ! Suc 0
                 \<and> writes st ! 0 < writes st ! Suc 0"
    by simp
  then have o: "writes st ! 0 + 8 \<le> writes st ! 1 \<and> writes st ! 0 < writes st ! 1"
    unfolding c0 by simp
  from a b l2 t0 t1 o show ?thesis by auto
qed

text \<open>
  \<^bold>\<open>C6\<close>, as the code has it. The assembler has no check of the declared format and no
  UnsupportedFormatError: a single 4 by 4 layer declared as format 131 (a format with
  8-byte blocks) and holding 8 bytes is assembled into a 16-byte slot.
\<close>

theorem unsupported_format_is_assembled:
  "assembleMipLevels [sampleLayer 131 4 4 [sampleLevel 8 7 8]] (Some (sampleBase 131 4 4 0 1))
   = Inr [\<lparr> levelData = replicate 8 7 @ replicate 8 0, uncompressedByteLength = 16 \<rparr>]"
proof -
  have "assembleMipLevels [sampleLayer 131 4 4 [sampleLevel 8 7 8]] (Some (sampleBase 131 4 4 0 1))
        = Inr (map (\<lambda>k. fst (projr (assembleMip (sampleBase 131 4 4 0 1)
                  [sampleLayer 131 4 4 [sampleLevel 8 7 8]] k))) [0..<1])"
    by (rule assembleMipLevels_ok) (simp_all add: sampleLayer_def)
  moreover have "[0..<1] = [0::nat]" by simp
  ultimately show ?thesis
    by (simp only: bc1_sample_level list.map fst_conv sum.sel)
qed

text \<open>
  \<^bold>\<open>C6\<close>, amended. The assembler never reads the declared format: whatever the format
  of the base parameters and of the layers, layers that all have the first layer's
  number of levels are assembled, with the result that any other format gives (the
  4 by 4, 16-byte rule is applied to all).
\<close>

theorem format_is_not_inspected:
  assumes "layers \<noteq> []"
    and "\<forall>layer\<in>set layers. length (layerLevels layer) = mipCount"
  shows "\<exists>cl. assembleMipLevels (map (\<lambda>l. l\<lparr>format := g l\<rparr>) layers) (Some (bp\<lparr>baseFormat := f\<rparr>))
               = Inr cl
            \<and> assembleMipLevels layers (Some bp) = Inr cl
            \<and> length cl = mipCount"
proof -
  let ?layers' = "map (\<lambda>l. l\<lparr>format := g l\<rparr>) layers"
  let ?cl = "map (\<lambda>k. fst (projr (assembleMip bp layers k))) [0..<mipCount]"
  have ne: "?layers' \<noteq> []" using assms(1) by simp
  have mc: "\<forall>layer\<in>set ?layers'. length (layerLevels layer) = mipCount"
    using assms(2) by simp
  have "assembleMipLevels ?layers' (Some (bp\<lparr>baseFormat := f\<rparr>)) = Inr ?cl"
    using assembleMipLevels_ok[OF ne mc, of "bp\<lparr>baseFormat := f\<rparr>"]
    by (simp only: assembleMip_format_irrelevant)
  moreover have "assembleMipLevels layers (Some bp) = Inr ?cl"
    by (rule assembleMipLevels_ok[OF assms])
  ultimately show ?thesis by simp
qed

theorem format_is_not_inspected_witness:
  "\<exists>cl. assembleMipLevels (map (\<lambda>l. l\<lparr>format := 131\<rparr>) twoLayers)
           (Some ((sampleBase 0 8 4 0 2)\<lparr>baseFormat := 131\<rparr>)) = Inr cl
      \<and> assembleMipLevels twoLayers (Some (sampleBase 0 8 4 0 2)) = Inr cl
      \<and> length cl = 2"
proof -
  have h: "twoLayers \<noteq> []" "\<forall>layer\<in>set twoLayers. length (layerLevels layer) = 2"
    by (simp_all add: twoLayers_def sampleLayer_def)
  from format_is_not_inspected[OF h, where g = "\<lambda>l. 131" and bp = "sampleBase 0 8 4 0 2"
      and f = 131]
  show ?thesis .
qed

text \<open>
  \<^bold>\<open>C7\<close>. The source yields layers that are taken in (at least one), then a layer that
  is encoded and whose width, height or mip count differs from the first layer's. Then
  \<^verbatim>\<open>encode\<close> fails with the error of the validation of that layer: a mismatch error
  carrying that layer's 0-based index, the first layer's value and the layer's value.
  The encoder has been called for the layers up to that one and no further, and the
  assembler has not been entered, so no combined buffer has been allocated.
\<close>

theorem mismatched_layer_aborts:
  assumes a: "accepted env good cs"
    and ne: "good \<noteq> []"
    and e: "encodeItem env item = Inr c"
    and bad: "pixelWidth c \<noteq> pixelWidth (cs ! 0) \<or> pixelHeight c \<noteq> pixelHeight (cs ! 0)
              \<or> length (levels c) \<noteq> length (levels (cs ! 0))"
  shows "\<exists>err. encode env (map Inr good @ Inr item # rest)
                 = (map EncoderCall [0..<Suc (length good)], Inl err)
           \<and> validateLayerConsistency c (extractBaseParams (cs ! 0)) (length good) = Inl err
           \<and> err \<in> {FormatMismatch (length good) (vkFormat (cs ! 0)) (vkFormat c),
                    SizeMismatch (length good) (pixelWidth (cs ! 0)) (pixelHeight (cs ! 0))
                      (pixelWidth c) (pixelHeight c),
                    MipCountMismatch (length good) (length (levels (cs ! 0))) (length (levels c))}
           \<and> AssemblerCall \<notin> set (fst (encode env (map Inr good @ Inr item # rest)))"
proof -
  have l: "length cs = length good" by (rule accepted_length[OF a])
  with ne have cne: "cs \<noteq> []" by auto
  from validate_mismatch[OF bad, of "length good"] obtain err
    where v: "validateLayerConsistency c (extractBaseParams (cs ! 0)) (length good) = Inl err"
      and k: "err \<in> {FormatMismatch (length good) (vkFormat (cs ! 0)) (vkFormat c),
                    SizeMismatch (length good) (pixelWidth (cs ! 0)) (pixelHeight (cs ! 0))
                      (pixelWidth c) (pixelHeight c),
                    MipCountMismatch (length good) (length (levels (cs ! 0))) (length (levels c))}"
    by blast
  have split: "map Inr good @ Inr item # rest = map Inr good @ ([Inr item] @ rest)" by simp
  let ?tr = "map EncoderCall [0..<length good]"
  have s1: "encodeLoop env (map Inr good @ ([Inr item] @ rest)) (finalState []) []
            = encodeLoop env ([Inr item] @ rest) (finalState cs) ?tr"
    by (simp only: encodeLoop_append[of env "map Inr good"] run_ok[OF a] prod.case sum.case)
  have s2: "encodeLoop env [Inr item] (finalState cs) ?tr
            = (?tr @ [EncoderCall (length good)], Inl err)"
    using e v cne l by (simp add: encodeLoop_step del: encodeLoop.simps)
  have s3: "encodeLoop env ([Inr item] @ rest) (finalState cs) ?tr
            = (?tr @ [EncoderCall (length good)], Inl err)"
    by (simp only: encodeLoop_append[of env "[Inr item]"] s2 prod.case sum.case)
  have loop: "encodeLoop env (map Inr good @ Inr item # rest) (finalState []) []
              = (?tr @ [EncoderCall (length good)], Inl err)"
    unfolding split s1 s3 ..
  then have r: "encode env (map Inr good @ Inr item # rest)
                = (map EncoderCall [0..<Suc (length good)], Inl err)"
    by (simp add: encode_def initial_state)
  have "AssemblerCall \<notin> set (map EncoderCall [0..<Suc (length good)])" by auto
  with r v k show ?thesis by (intro exI[of _ err]) simp
qed

theorem mismatched_layer_aborts_witness:
  "encode sampleEnv [Inr (ImageFile (replicate 16 1) ''a.png'' ''png''),
                     Inr (ImageFile (replicate 32 2) ''b.png'' ''png''),
                     Inr (ImageFile (replicate 16 3) ''c.png'' ''png'')]
   = ([EncoderCall 0, EncoderCall 1], Inl (SizeMismatch 1 4 4 4 8))"
proof -
  let ?c0 = "sampleContainer 0 4 4 0 [sampleLevel 16 1 16]"
  let ?c1 = "sampleContainer 0 4 8 0 [sampleLevel 32 2 32]"
  have a: "accepted sampleEnv [ImageFile (replicate 16 1) ''a.png'' ''png''] [?c0]"
    by (simp add: accepted_def encodeItem_def sampleEnv_def)
  have e: "encodeItem sampleEnv (ImageFile (replicate 32 2) ''b.png'' ''png'') = Inr ?c1"
    by (simp add: encodeItem_def sampleEnv_def)
  have bad: "pixelWidth ?c1 \<noteq> pixelWidth ([?c0] ! 0) \<or> pixelHeight ?c1 \<noteq> pixelHeight ([?c0] ! 0)
              \<or> length (levels ?c1) \<noteq> length (levels ([?c0] ! 0))"
    by (simp add: sampleContainer_def)
  have v: "validateLayerConsistency ?c1 (extractBaseParams ([?c0] ! 0))
             (length [ImageFile (replicate 16 1) ''a.png'' ''png''])
           = Inl (SizeMismatch 1 4 4 4 8)"
    by (simp add: validateLayerConsistency_def extractBaseParams_def sampleContainer_def)
  from mismatched_layer_aborts[OF a _ e bad,
      of "[Inr (ImageFile (replicate 16 3) ''c.png'' ''png'')]"] v
  show ?thesis by (auto simp: upt_0_Suc simp del: upt_Suc)
qed

text \<open>
  \<^bold>\<open>C8\<close>, at the failing input. \<^verbatim>\<open>fromImageUrls\<close> rejects an empty URL array before
  anything is called, but \<^verbatim>\<open>encode\<close> has no such guard: on a source that yields no
  layer it makes no encoder call, enters \<^verbatim>\<open>_assembleMipLevels\<close> with no layers and
  \<^verbatim>\<open>baseParams = null\<close>, and ends in the TypeError of the destructuring there.
\<close>

theorem empty_source_reaches_assembler:
  "encode env [] = ([AssemblerCall], Inl TypeError)
   \<and> fromImageUrls env [] = ([], Inl NoUrlsProvided)"
  by (simp add: encode_def fromImageUrls_def assembleMipLevels_def)

text \<open>One more item after an accepted prefix.\<close>

text \<open>
  \<^bold>\<open>C9\<close>. For the same ordered URLs, the pipelined mode of \<^verbatim>\<open>fromImageUrls\<close> (the
  generator that keeps one fetch in flight, feeding \<^verbatim>\<open>encode\<close>) returns serialized
  bytes exactly when the spec's eager mode does, and then the same bytes.
\<close>

theorem pipelined_equals_eager:
  "snd (fromImageUrls env urls) = Inr out \<longleftrightarrow> spec_eager_assembly env urls = Inr out"
proof (cases "urls = []")
  case True
  then show ?thesis by (simp add: fromImageUrls_def spec_eager_assembly_def)
next
  case ne: False
  have pipe: "snd (fromImageUrls env urls) = snd (encode env (pullInOrder env 0 urls))"
    using ne by (simp add: fromImageUrls_def imageGenerator_pull)
  have enc: "map (encodeItem env)
               (map (\<lambda>j. imageItem (0 + j) (urls ! j) (datas ! j)) [0..<length urls])
             = map (\<lambda>i. encodeItem env (imageItem i (urls ! i) (datas ! i))) [0..<length urls]"
    for datas by (simp add: o_def)
  show ?thesis
  proof
    assume "snd (fromImageUrls env urls) = Inr out"
    then obtain items cs cl where src: "pullInOrder env 0 urls = map Inr items"
      and a: "accepted env items cs"
      and c: "assembleMipLevels (map toEncodedLayer cs) (Some (extractBaseParams (cs ! 0))) = Inr cl"
      and w: "write_ktx env (createArrayContainer (map toEncodedLayer cs)
                           (extractBaseParams (cs ! 0)) cl) = Inr out"
      unfolding pipe encode_success by blast
    from src obtain datas where f: "map (fetch env) urls = map Inr datas"
      and items: "items = map (\<lambda>j. imageItem (0 + j) (urls ! j) (datas ! j)) [0..<length urls]"
      unfolding pullInOrder_all by blast
    from a have m: "map (encodeItem env) items = map Inr cs"
      and v: "\<forall>j. 0 < j \<and> j < length cs \<longrightarrow>
                validateLayerConsistency (cs ! j) (extractBaseParams (cs ! 0)) j = Inr ()"
      by (simp_all add: accepted_def)
    from m have m': "map (\<lambda>i. encodeItem env (imageItem i (urls ! i) (datas ! i))) [0..<length urls]
                     = map Inr cs"
      unfolding items enc .
    show "spec_eager_assembly env urls = Inr out"
      unfolding eager_success using ne f m' v c w by blast
  next
    assume "spec_eager_assembly env urls = Inr out"
    then obtain datas cs cl where f: "map (fetch env) urls = map Inr datas"
      and m': "map (\<lambda>i. encodeItem env (imageItem i (urls ! i) (datas ! i))) [0..<length urls]
                     = map Inr cs"
      and v: "\<forall>j. 0 < j \<and> j < length cs \<longrightarrow>
                validateLayerConsistency (cs ! j) (extractBaseParams (cs ! 0)) j = Inr ()"
      and c: "assembleMipLevels (map toEncodedLayer cs) (Some (extractBaseParams (cs ! 0))) = Inr cl"
      and w: "write_ktx env (createArrayContainer (map toEncodedLayer cs)
                           (extractBaseParams (cs ! 0)) cl) = Inr out"
      unfolding eager_success by blast
    define items where "items = map (\<lambda>j. imageItem (0 + j) (urls ! j) (datas ! j)) [0..<length urls]"
    have src: "pullInOrder env 0 urls = map Inr items"
      unfolding pullInOrder_all using f items_def by blast
    have m: "map (encodeItem env) items = map Inr cs"
      unfolding items_def enc by (rule m')
    then have a: "accepted env items cs" using v by (simp add: accepted_def)
    have "length cs = length urls" using map_eq_imp_length_eq[OF m'] by simp
    with ne have cne: "cs \<noteq> []" by auto
    show "snd (fromImageUrls env urls) = Inr out"
      unfolding pipe encode_success using src a cne c w by blast
  qed
qed

theorem pipelined_equals_eager_witness:
  "snd (fromImageUrls sampleEnv [''a/x.png'', ''bb/y.jpg'']) = Inr (replicate 16 7 @ replicate 16 8)
   \<and> spec_eager_assembly sampleEnv [''a/x.png'', ''bb/y.jpg''] = Inr (replicate 16 7 @ replicate 16 8)"
proof -
  have p: "snd (fromImageUrls sampleEnv [''a/x.png'', ''bb/y.jpg''])
           = Inr (replicate 16 7 @ replicate 16 8)"
    by (simp add: sample_pipelined)
  from pipelined_equals_eager[THEN iffD1, OF p] p show ?thesis by simp
qed

text \<open>
  \<^bold>\<open>C10\<close>. The assembler never writes past the end of a combined buffer, whatever the
  layers hold: neither one level nor the whole assembly ends in the RangeError of an
  out-of-range \<^verbatim>\<open>set\<close>, in either supercompression branch. When a level is assembled,
  the final offset is at most the allocated size, and every layer's bytes (for scheme 0 at
  most \<^verbatim>\<open>exactSize\<close> of them, fewer when the payload is shorter, and the padding)
  end inside the buffer.
\<close>

theorem copies_stay_in_bounds:
  "assembleMipLevels layers bpo \<noteq> Inl RangeError
   \<and> assembleMip bp layers m \<noteq> Inl RangeError
   \<and> (\<forall>lvl st. assembleMip bp layers m = Inr (lvl, st) \<longrightarrow>
         combined st = levelData lvl
         \<and> offset st \<le> length (levelData lvl)
         \<and> length (writes st) = length layers
         \<and> (\<forall>i<length layers. \<exists>l.
               nth_opt (layerLevels (layers ! i)) m = Some l
               \<and> length (layerSlot 0 exactSize pad l) = min (length (levelData l)) exactSize + pad
               \<and> writes st ! i
                    + length (layerSlot (baseSupercompression bp)
                        (uastcBytesPerImageAtLevel m (baseWidth bp) (baseHeight bp))
                        (pad8 (uastcBytesPerImageAtLevel m (baseWidth bp) (baseHeight bp))) l)
                  \<le> length (levelData lvl)))"
proof (intro conjI allI impI)
  show "assembleMipLevels layers bpo \<noteq> Inl RangeError"
    using assembleMipLevels_error[of layers bpo RangeError] by auto
  show "assembleMip bp layers m \<noteq> Inl RangeError"
    using assembleMip_cases[of m layers bp] by auto
next
  fix lvl st
  assume r: "assembleMip bp layers m = Inr (lvl, st)"
  define E where "E = uastcBytesPerImageAtLevel m (baseWidth bp) (baseHeight bp)"
  from r assembleMip_cases[of m layers bp] obtain ls
    where lf: "map (\<lambda>layer. nth_opt (layerLevels layer) m) layers = map Some ls"
    by auto
  define slots where "slots = map (layerSlot (baseSupercompression bp) E (pad8 E)) ls"
  from assembleMip_layout[OF lf E_def slots_def] r obtain tot unc
    where fit: "length (concat slots) \<le> tot"
      and lvl: "lvl = \<lparr> levelData = concat slots @ replicate (tot - length (concat slots)) 0,
                        uncompressedByteLength = unc \<rparr>"
      and st: "st = \<lparr> combined = concat slots @ replicate (tot - length (concat slots)) 0,
                      offset = length (concat slots),
                      writes = slot_offsets 0 slots \<rparr>"
    by auto
  have len: "length ls = length layers" by (rule layersForThisMip_length[OF lf])
  show "combined st = levelData lvl" by (simp add: lvl st)
  show "offset st \<le> length (levelData lvl)" using fit by (simp add: lvl st)
  show "length (writes st) = length layers"
    by (simp add: st slot_offsets_length slots_def len)
  fix i assume i: "i < length layers"
  have a: "nth_opt (layerLevels (layers ! i)) m = Some (ls ! i)"
    by (rule layersForThisMip_nth[OF lf i])
  have b: "length (layerSlot 0 exactSize pad (ls ! i))
           = min (length (levelData (ls ! i))) exactSize + pad"
    by (simp add: layerSlot_def)
  have "slot_offsets 0 slots ! i + length (slots ! i) \<le> 0 + length (concat slots)"
    using i len by (intro slot_offsets_nth_end) (simp add: slots_def)
  then have c: "writes st ! i + length (layerSlot (baseSupercompression bp) E (pad8 E) (ls ! i))
                \<le> length (levelData lvl)"
    using fit i len by (simp add: st lvl slots_def)
  from a b c show "\<exists>l. nth_opt (layerLevels (layers ! i)) m = Some l
               \<and> length (layerSlot 0 exactSize pad l) = min (length (levelData l)) exactSize + pad
               \<and> writes st ! i
                    + length (layerSlot (baseSupercompression bp)
                        (uastcBytesPerImageAtLevel m (baseWidth bp) (baseHeight bp))
                        (pad8 (uastcBytesPerImageAtLevel m (baseWidth bp) (baseHeight bp))) l)
                  \<le> length (levelData lvl)"
    unfolding E_def by blast
qed

theorem copies_stay_in_bounds_witness:
  "assembleMipLevels shortLayers (Some (sampleBase 0 4 4 0 1)) \<noteq> Inl RangeError
   \<and> assembleMip (sampleBase 0 4 4 0 1) shortLayers 0
       = Inr (\<lparr> levelData = replicate 8 1 @ replicate 16 2 @ replicate 8 0,
                uncompressedByteLength = 32 \<rparr>,
              \<lparr> combined = replicate 8 1 @ replicate 16 2 @ replicate 8 0,
                offset = 24, writes = [0, 8] \<rparr>)
   \<and> offset \<lparr> combined = replicate 8 1 @ replicate 16 2 @ replicate 8 (0::byte),
              offset = 24, writes = [0, 8] \<rparr>
       \<le> length (levelData \<lparr> levelData = replicate 8 1 @ replicate 16 2 @ replicate 8 0,
                uncompressedByteLength = 32 \<rparr>)"
  using copies_stay_in_bounds[of shortLayers "Some (sampleBase 0 4 4 0 1)"
          "sampleBase 0 4 4 0 1" 0 16 0] shortLayers_level
  by blast

end
